theory Spec2Isabelle
  imports Main
begin

section \<open>Listeners and the flow\<close>

text \<open>
  A listener is either a function or an object with a \<open>call\<close> method; both may carry a
  \<open>property\<close> back-reference to the Property that owns them. \<open>lid\<close> is the identity of
  the listener (JavaScript compares listeners by reference), \<open>call\<close> the identity of the
  function stored in its \<open>call\<close> field, \<open>property\<close> the reference of the owning
  Property, if any.
\<close>

record listener =
  lid :: nat
  isFunction :: bool
  call :: nat
  property :: "nat option"

text \<open>
  An entry of the flow's queue is \<open>(obj, method, args)\<close>.  The source enqueues a function
  listener as \<open>pushOnce(listener, [event])\<close> (no object, the listener is the method) and an
  object listener as \<open>pushOnce(listener, listener.call, [event])\<close>.
\<close>

type_synonym key = "nat option \<times> nat"

definition key_of :: "listener \<Rightarrow> key" where
  "key_of l = (if isFunction l then (None, lid l) else (Some (lid l), call l))"

record 'e flow =
  running :: bool
  queue :: "(key \<times> 'e) list"
  executed :: "(key \<times> 'e) list"

text \<open>
  The Queue and the Flow (\<open>P.flow.push\<close>, \<open>P.flow.pushOnce\<close>, \<open>P.flow.run\<close>,
  \<open>P.flow.isRunning\<close>) are not among the source files; the definitions below follow the
  spec.  \<open>running\<close> tells whether a run is open, \<open>queue\<close> holds the pending entries of
  the open run and \<open>executed\<close> records the invocations the flushes have executed, oldest
  first.  The model has the default queue only.
\<close>

text \<open>
  Modelled from the spec: \<open>P.flow.push\<close> is missing.  The spec's words: append
  unconditionally (duplicates allowed).
\<close>

definition flow_push :: "key \<Rightarrow> 'e \<Rightarrow> (key \<times> 'e) list \<Rightarrow> (key \<times> 'e) list" where
  "flow_push k a q = q @ [(k, a)]"

text \<open>
  Modelled from the spec: \<open>P.flow.pushOnce\<close> is missing.  The spec's words: append only if
  no pending entry in this queue already targets the same invocation; otherwise the
  arguments are updated in place, position unchanged (enqueue-if-absent-else-replace-
  arguments, the last enqueued arguments win).
\<close>

fun flow_pushOnce :: "key \<Rightarrow> 'e \<Rightarrow> (key \<times> 'e) list \<Rightarrow> (key \<times> 'e) list" where
  "flow_pushOnce k a [] = [(k, a)]"
| "flow_pushOnce k a (e # q) = (if fst e = k then (k, a) # q else e # flow_pushOnce k a q)"

text \<open>
  Modelled from the spec: the flush of the queue is missing.  The spec's words: execute
  all pending entries in enqueue order, then clear.  What an invocation does when it is
  executed is outside this model, so a flush executes the entries that are pending when it
  starts.
\<close>

definition flush :: "'e flow \<Rightarrow> 'e flow" where
  "flush fl = fl\<lparr>queue := [], executed := executed fl @ queue fl\<rparr>"

text \<open>A list of invocations, each enqueued with push-once, in order.\<close>

fun pushOnceAll :: "(key \<times> 'e) list \<Rightarrow> (key \<times> 'e) list \<Rightarrow> (key \<times> 'e) list" where
  "pushOnceAll [] q = q"
| "pushOnceAll (r # rs) q = pushOnceAll rs (flow_pushOnce (fst r) (snd r) q)"

section \<open>ProAct.Array\<close>

datatype Operations = op_set | op_add | op_remove | op_setLength | op_reverse | op_sort | op_splice

fun code :: "Operations \<Rightarrow> int" where
  "code op_set = 0"
| "code op_add = 1"
| "code op_remove = 2"
| "code op_setLength = 3"
| "code op_reverse = 4"
| "code op_sort = 5"
| "code op_splice = 6"

definition isIndexOp :: "int \<Rightarrow> bool" where
  "isIndexOp op = (op = code op_set \<or> op = code op_reverse \<or> op = code op_sort)"

text \<open>
  The event data of a sequence update is \<open>[op, ind, oldVal, newVal]\<close>; the last two are
  \<open>null\<close>, one element, a list of elements, or (for sort) the arguments of the call.
\<close>

datatype 'a payload = PNull | PElem 'a | PElems "'a list" | PArgs

text \<open>
  The index \<open>ind\<close> is a number where the caller computes it, and a property key (a
  string) where the caller takes it from a \<open>for ... in\<close> loop, as \<open>updateByDiff\<close> does.
\<close>

datatype jsindex = Idx int | Key string

datatype 'a event = Event "'a event option" int jsindex "'a payload" "'a payload"

text \<open>
  The log keeps the order in which a call defines index-cells, deletes them and hands an
  update to the flow.
\<close>

datatype 'a effect = DefineIndexProp int | DeleteIndex int | Update "'a event"

text \<open>
  One sequence with its core and the flow it notifies through: \<open>array\<close> is
  \<open>this._array\<close>, \<open>indexProps\<close> the indices \<open>i\<close> for which the shell has an index-cell
  \<open>this[i]\<close>, \<open>indexListeners\<close> and \<open>lengthListeners\<close> are
  \<open>this.__pro__.listeners.index\<close> and \<open>this.__pro__.listeners.length\<close>.
\<close>

record 'a world =
  array :: "'a list"
  indexProps :: "int set"
  indexListeners :: "listener list"
  lengthListeners :: "listener list"
  flow :: "'a event flow"
  log :: "'a effect list"

text \<open>
  Modelled from the spec: \<open>Actor.update\<close>, which \<open>willUpdateListeners\<close> calls on the
  property that owns a listener, is missing.  The spec's words: for every subscribed
  listener, defer its invocation to the flow.  The parameter \<open>pu\<close> of the definitions
  below gives, for a property reference and the event, the invocations that this update
  defers; they are enqueued with push-once.
\<close>

type_synonym 'a property_update = "nat \<Rightarrow> 'a event \<Rightarrow> (key \<times> 'a event) list"

definition notify :: "'a property_update \<Rightarrow> 'a event \<Rightarrow> listener \<Rightarrow> (key \<times> 'a event) list" where
  "notify pu ev l = (key_of l, ev) # (case property l of None \<Rightarrow> [] | Some p \<Rightarrow> pu p ev)"

fun willUpdateListeners_loop ::
  "'a property_update \<Rightarrow> 'a event \<Rightarrow> listener list \<Rightarrow> (key \<times> 'a event) list \<Rightarrow> (key \<times> 'a event) list" where
  "willUpdateListeners_loop pu ev [] q = q"
| "willUpdateListeners_loop pu ev (l # ls) q =
     willUpdateListeners_loop pu ev ls
       (let q1 = flow_pushOnce (key_of l) ev q
        in case property l of None \<Rightarrow> q1 | Some p \<Rightarrow> pushOnceAll (pu p ev) q1)"

definition willUpdateListeners ::
  "'a property_update \<Rightarrow> listener list \<Rightarrow> int \<Rightarrow> jsindex \<Rightarrow> 'a payload \<Rightarrow> 'a payload \<Rightarrow> 'a world \<Rightarrow> 'a world" where
  "willUpdateListeners pu listeners op ind oldVal newVal w =
     (let event = Event None op ind oldVal newVal
      in w\<lparr>flow := (flow w)\<lparr>queue := willUpdateListeners_loop pu event listeners (queue (flow w))\<rparr>,
           log := log w @ [Update event]\<rparr>)"

definition willUpdateSplice ::
  "'a property_update \<Rightarrow> jsindex \<Rightarrow> 'a list option \<Rightarrow> 'a list option \<Rightarrow> 'a world \<Rightarrow> 'a world" where
  "willUpdateSplice pu index spliced newItems w =
     (case spliced of
        None \<Rightarrow> w
      | Some s \<Rightarrow>
          (case newItems of
             None \<Rightarrow> w
           | Some n \<Rightarrow>
               if length s = 0 \<and> length n = 0 then w
               else
                 let listeners =
                       (if length s = length n then indexListeners w
                        else if length n = 0 \<or> length s = 0 then lengthListeners w
                        else lengthListeners w @ indexListeners w)
                 in willUpdateListeners pu listeners (code op_splice) index (PElems s) (PElems n) w))"

text \<open>
  Modelled from the spec: \<open>P.flow.run\<close> is missing.  The spec's words: if no run is open,
  open one, execute the body, then flush and close the run; if a run is already open,
  execute the body inline and return.
\<close>

definition flow_run :: "('a world \<Rightarrow> 'a world) \<Rightarrow> 'a world \<Rightarrow> 'a world" where
  "flow_run body w =
     (if running (flow w) then body w
      else
        let w1 = body (w\<lparr>flow := (flow w)\<lparr>running := True\<rparr>\<rparr>)
        in w1\<lparr>flow := (flush (flow w1))\<lparr>running := False\<rparr>\<rparr>)"

definition updateSplice ::
  "'a property_update \<Rightarrow> jsindex \<Rightarrow> 'a list option \<Rightarrow> 'a list option \<Rightarrow> 'a world \<Rightarrow> 'a world" where
  "updateSplice pu index sliced newItems w =
     (if running (flow w) then willUpdateSplice pu index sliced newItems w
      else flow_run (willUpdateSplice pu index sliced newItems) w)"

text \<open>
  Modelled from the spec: \<open>ArrayCore.update\<close> is missing.  The spec's words: a mutation
  enqueues exactly one descriptive update through the flow; operations that only replace
  values at existing indices notify only index-scoped listeners, operations that change
  the length notify length-scoped listeners.
\<close>

definition core_update ::
  "'a property_update \<Rightarrow> int \<Rightarrow> jsindex \<Rightarrow> 'a payload \<Rightarrow> 'a payload \<Rightarrow> 'a world \<Rightarrow> 'a world" where
  "core_update pu op ind oldVal newVal w =
     flow_run
       (\<lambda>w. willUpdateListeners pu (if isIndexOp op then indexListeners w else lengthListeners w)
              op ind oldVal newVal w) w"

text \<open>
  Modelled from the spec: \<open>ArrayCore.defineIndexProp\<close> is missing.  The spec's words:
  growth allocates new index-cells; \<open>defineIndexProp i\<close> materializes the index-cell \<open>i\<close>.
\<close>

definition defineIndexProp :: "int \<Rightarrow> 'a world \<Rightarrow> 'a world" where
  "defineIndexProp i w = w\<lparr>indexProps := insert i (indexProps w), log := log w @ [DefineIndexProp i]\<rparr>"

text \<open>\<open>delete this[i]\<close>: deleting a property the shell does not have changes nothing.\<close>

definition deleteIndex :: "int \<Rightarrow> 'a world \<Rightarrow> 'a world" where
  "deleteIndex i w = w\<lparr>indexProps := indexProps w - {i}, log := log w @ [DeleteIndex i]\<rparr>"

definition reverse :: "'a property_update \<Rightarrow> 'a world \<Rightarrow> 'a list option \<times> 'a world" where
  "reverse pu w =
     (if length (array w) = 0 then (None, w)
      else
        let reversed = rev (array w);
            w1 = w\<lparr>array := reversed\<rparr>
        in (Some reversed, core_update pu (code op_reverse) (Idx (- 1)) PNull PNull w1))"

text \<open>
  \<open>srt\<close> stands for the native \<open>Array.prototype.sort\<close> applied with the call's
  arguments (the comparator).
\<close>

definition pArray_sort ::
  "'a property_update \<Rightarrow> ('a list \<Rightarrow> 'a list) \<Rightarrow> 'a world \<Rightarrow> 'a list option \<times> 'a world" where
  "pArray_sort pu srt w =
     (if length (array w) = 0 then (None, w)
      else
        let sorted = srt (array w);
            w1 = w\<lparr>array := sorted\<rparr>
        in (Some sorted, core_update pu (code op_sort) (Idx (- 1)) PNull PArgs w1))"

definition pop :: "'a property_update \<Rightarrow> 'a world \<Rightarrow> 'a option \<times> 'a world" where
  "pop pu w =
     (if length (array w) = 0 then (None, w)
      else
        let popped = last (array w);
            w1 = w\<lparr>array := butlast (array w)\<rparr>;
            index = int (length (array w1));
            w2 = deleteIndex index w1
        in (Some popped, core_update pu (code op_remove) (Idx (int (length (array w2)))) (PElem popped) PNull w2))"

definition shift :: "'a property_update \<Rightarrow> 'a world \<Rightarrow> 'a option \<times> 'a world" where
  "shift pu w =
     (if length (array w) = 0 then (None, w)
      else
        let shifted = hd (array w);
            w1 = w\<lparr>array := tl (array w)\<rparr>;
            index = int (length (array w1));
            w2 = deleteIndex index w1
        in (Some shifted, core_update pu (code op_remove) (Idx 0) (PElem shifted) PNull w2))"

fun push_loop :: "'a list \<Rightarrow> 'a world \<Rightarrow> 'a world" where
  "push_loop [] w = w"
| "push_loop (v # vs) w =
     (let index = int (length (array w));
          w1 = w\<lparr>array := array w @ [v]\<rparr>
      in push_loop vs (defineIndexProp index w1))"

definition push :: "'a property_update \<Rightarrow> 'a list \<Rightarrow> 'a world \<Rightarrow> nat \<times> 'a world" where
  "push pu vals w =
     (let w1 = push_loop vals w;
          w2 = core_update pu (code op_add) (Idx (int (length (array w1)) - 1)) PNull (PElems vals) w1
      in (length (array w2), w2))"

text \<open>
  \<open>array.splice(i, 0, arguments[i])\<close> inserts one element before position \<open>i\<close> (at the
  end when the array is shorter).
\<close>

fun unshift_loop :: "nat \<Rightarrow> 'a list \<Rightarrow> 'a world \<Rightarrow> 'a world" where
  "unshift_loop i [] w = w"
| "unshift_loop i (v # vs) w =
     (let w1 = w\<lparr>array := take i (array w) @ v # drop i (array w)\<rparr>
      in unshift_loop (Suc i) vs (defineIndexProp (int (length (array w1)) - 1) w1))"

definition unshift :: "'a property_update \<Rightarrow> 'a list \<Rightarrow> 'a world \<Rightarrow> nat \<times> 'a world" where
  "unshift pu vals w =
     (let w1 = unshift_loop 0 vals w;
          w2 = core_update pu (code op_add) (Idx 0) PNull (PElems vals) w1
      in (length (array w2), w2))"

text \<open>
  The native \<open>Array.prototype.splice\<close>: a negative start counts from the end, the start is
  clamped to the array, the delete count is clamped to what is left after the start, and
  a call with the start alone removes everything from the start on.  The result is the
  removed elements and the array after the call.  \<open>howMany = None\<close> stands for a call
  with the start alone (it has no items to insert).
\<close>

definition native_splice :: "'a list \<Rightarrow> int \<Rightarrow> int option \<Rightarrow> 'a list \<Rightarrow> 'a list \<times> 'a list" where
  "native_splice xs index howMany items =
     (let len = int (length xs);
          start = (if index < 0 then max (len + index) 0 else min index len);
          dc = (case howMany of None \<Rightarrow> len - start | Some h \<Rightarrow> min (max h 0) (len - start));
          ins = (case howMany of None \<Rightarrow> [] | Some h \<Rightarrow> items)
      in (take (nat dc) (drop (nat start) xs),
          take (nat start) xs @ ins @ drop (nat (start + dc)) xs))"

text \<open>
  The bitwise operators work on 32-bit integers: \<open>toInt32\<close> wraps a number into the
  signed 32-bit range and \<open>bitnot\<close> is \<open>~\<close>.  So \<open>!~index\<close> holds exactly when
  \<open>bitnot index = 0\<close>, that is for \<open>-1\<close> and for every number that wraps to it.
\<close>

definition toInt32 :: "int \<Rightarrow> int" where
  "toInt32 x = (x + 2147483648) mod 4294967296 - 2147483648"

definition bitnot :: "int \<Rightarrow> int" where
  "bitnot x = - toInt32 x - 1"

text \<open>\<open>while (delta--) defineIndexProp(oldLn++)\<close> and \<open>while (delta--) delete this[--oldLn]\<close>.\<close>

fun defineIndexProps :: "nat \<Rightarrow> int \<Rightarrow> 'a world \<Rightarrow> 'a world" where
  "defineIndexProps 0 oldLn w = w"
| "defineIndexProps (Suc delta) oldLn w = defineIndexProps delta (oldLn + 1) (defineIndexProp oldLn w)"

fun deleteIndexProps :: "nat \<Rightarrow> int \<Rightarrow> 'a world \<Rightarrow> 'a world" where
  "deleteIndexProps 0 oldLn w = w"
| "deleteIndexProps (Suc delta) oldLn w = deleteIndexProps delta (oldLn - 1) (deleteIndex (oldLn - 1) w)"

definition pArray_splice ::
  "'a property_update \<Rightarrow> int \<Rightarrow> int option \<Rightarrow> 'a list \<Rightarrow> 'a world \<Rightarrow> 'a list \<times> 'a world" where
  "pArray_splice pu index howMany items w =
     (let oldLn = int (length (array w));
          r = native_splice (array w) index howMany items;
          spliced = fst r;
          w1 = w\<lparr>array := snd r\<rparr>;
          ln = int (length (array w1));
          newItems = (case howMany of None \<Rightarrow> [] | Some h \<Rightarrow> items);
          index1 = (if bitnot index = 0 then ln - index else index);
          howMany1 = (case howMany of None \<Rightarrow> ln - index1 | Some h \<Rightarrow> h);
          w2 = (if int (length newItems) > howMany1
                then defineIndexProps (nat (int (length newItems) - howMany1)) oldLn w1
                else if howMany1 > int (length newItems)
                then deleteIndexProps (nat (howMany1 - int (length newItems))) oldLn w1
                else w1)
      in (spliced, updateSplice pu (Idx index1) (Some spliced) (Some newItems) w2))"

text \<open>
  The invariant of the sequence: the shell has an index-cell for exactly the positions of
  the backing array.
\<close>

definition cells_match :: "'a world \<Rightarrow> bool" where
  "cells_match w = (indexProps w = {0 ..< int (length (array w))})"

text \<open>
  A log in which the index-cells are released after the update is handed to the flow: no
  deletion of an index-cell is followed by an update.
\<close>

fun is_update :: "'a effect \<Rightarrow> bool" where
  "is_update (Update ev) = True"
| "is_update e = False"

fun released_after_update :: "'a effect list \<Rightarrow> bool" where
  "released_after_update [] = True"
| "released_after_update (DeleteIndex i # es) = (\<not> list_ex is_update es \<and> released_after_update es)"
| "released_after_update (e # es) = released_after_update es"

section \<open>Values, actors and their transformations\<close>

text \<open>
  The JavaScript values a property can hold.  Functions, arrays and objects are
  references; numbers are the integers and \<open>NaN\<close>; \<open>BadValue\<close> is the sentinel object
  \<open>P.Actor.BadValue\<close>; \<open>TypeError\<close> is the error object the runtime throws when a
  property of \<open>undefined\<close> is read.  Strict equality \<open>===\<close> compares references and
  primitive values, and \<open>NaN\<close> is not equal to itself.
\<close>

datatype jsval =
  Undefined | Null | Bool bool | NaN | Num int | Str string | Fun nat | Arr nat | Obj nat
  | BadValue | TypeError

definition strict_eq :: "jsval \<Rightarrow> jsval \<Rightarrow> bool" where
  "strict_eq a b = (a = b \<and> a \<noteq> NaN)"

text \<open>Any value can be thrown; a raised exception is the value thrown.\<close>

type_synonym error = jsval

datatype States = init | ready | destroyed

datatype Types = Types_simple | Types_auto | Types_object | Types_array | Types_nil

fun Types_type :: "jsval \<Rightarrow> Types" where
  "Types_type Null = Types_nil"
| "Types_type (Fun f) = Types_auto"
| "Types_type (Arr a) = Types_array"
| "Types_type (Obj b) = Types_object"
| "Types_type BadValue = Types_object"
| "Types_type TypeError = Types_object"
| "Types_type v = Types_simple"

text \<open>
  The base of properties and streams: \<open>listeners\<close> are the subscribers to value updates
  (\<open>listeners.change\<close>), in the order they subscribed, \<open>errListeners\<close> the subscribers
  to errors, \<open>transforms\<close> the pipeline; a transformation returns its result (\<open>Inr\<close>) or
  throws (\<open>Inl\<close>).
\<close>

record Actor =
  state :: States
  listeners :: "listener list"
  errListeners :: "listener list"
  transforms :: "(jsval \<Rightarrow> error + jsval) list"

text \<open>
  Modelled from the spec: the transform pipeline of \<open>P.Actor.transform\<close>
  (\<open>P.Observable.transform\<close>) is missing.  The spec's words: it applies the transform
  pipeline in order; any transform may signal reject (the sentinel bad value), which
  short-circuits the rest of the pipeline.  A transformation that throws ends the
  pipeline with its exception.
\<close>

fun transform_loop :: "(jsval \<Rightarrow> error + jsval) list \<Rightarrow> jsval \<Rightarrow> error + jsval" where
  "transform_loop [] v = Inr v"
| "transform_loop (t # ts) v =
     (case t v of
        Inl e \<Rightarrow> Inl e
      | Inr v1 \<Rightarrow> if v1 = BadValue then Inr BadValue else transform_loop ts v1)"

text \<open>
  Modelled from the spec: \<open>P.Actor.transform(actor, value)\<close> is missing; it runs the
  pipeline of the actor.
\<close>

definition transform :: "'z Actor_scheme \<Rightarrow> jsval \<Rightarrow> error + jsval" where
  "transform a v = transform_loop (transforms a) v"

text \<open>
  Modelled from the spec: \<open>Actor.on\<close> is not among the source files.  The spec's words:
  subscribe; no-op if already subscribed or if the node is destroyed.
\<close>

definition on :: "listener \<Rightarrow> 'z Actor_scheme \<Rightarrow> 'z Actor_scheme" where
  "on l a = (if l \<in> set (listeners a) \<or> state a = destroyed then a
             else a\<lparr>listeners := listeners a @ [l]\<rparr>)"

text \<open>
  Modelled from the spec: \<open>P.flow.run\<close> is missing; this is \<open>flow_run\<close> for a body that
  touches the flow alone.  The spec's words: if no run is open, open one, execute the
  body, then flush and close the run; if a run is already open, execute the body inline.
\<close>

definition run :: "('e flow \<Rightarrow> 'e flow) \<Rightarrow> 'e flow \<Rightarrow> 'e flow" where
  "run body fl =
     (if running fl then body fl
      else (flush (body (fl\<lparr>running := True\<rparr>)))\<lparr>running := False\<rparr>)"

section \<open>ProAct.Property\<close>

text \<open>
  A field of a host object is a plain data field holding a value, or an accessor pair
  installed by the Property with the given reference.  A host object carries its fields
  (\<open>hfields\<close>), the property table \<open>__pro__.properties\<close> and the names
  \<open>__pro__.meta.p.statics\<close>.
\<close>

datatype field = Plain jsval | Accessor nat

record host =
  hfields :: "string \<Rightarrow> field option"
  properties :: "string \<Rightarrow> nat option"
  statics :: "string list"

text \<open>
  \<open>propertyName\<close> is \<open>this.property\<close>, \<open>ptype\<close> what \<open>this.type()\<close> returns (the
  category of the cell's class), \<open>accessors\<close> whether \<open>get\<close>, \<open>set\<close>, \<open>g\<close>, \<open>s\<close> and
  \<open>v\<close> are defined on the cell.  \<open>proObject\<close> and \<open>propertyName\<close> are \<open>None\<close> when the
  source has \<open>undefined\<close> there.
\<close>

record Property = Actor +
  proObject :: "nat option"
  propertyName :: "string option"
  val :: jsval
  oldVal :: jsval
  isStaticTyped :: bool
  ptype :: Types
  accessors :: bool

datatype vevent = ValueEvent "vevent option" "string option" "nat option" jsval jsval

record pworld =
  heap :: "nat \<Rightarrow> Property"
  hosts :: "nat \<Rightarrow> host"
  nextRef :: nat
  pflow :: "vevent flow"
  currentCaller :: "listener option"

definition makeEvent :: "vevent option \<Rightarrow> Property \<Rightarrow> vevent" where
  "makeEvent src p = ValueEvent src (propertyName p) (proObject p) (oldVal p) (val p)"

text \<open>
  Modelled from the spec: \<open>Actor.update\<close> is not among the source files.  The spec's
  words: for every subscribed listener, defer its invocation to the flow; a repeated
  notification of a listener within one run collapses into a single delivery (push-once).
\<close>

definition update :: "nat \<Rightarrow> pworld \<Rightarrow> pworld" where
  "update pid w =
     (let p = heap w pid;
          event = makeEvent None p;
          deferred = map (\<lambda>l. (key_of l, event)) (listeners p)
      in w\<lparr>pflow := run (\<lambda>fl. fl\<lparr>queue := pushOnceAll deferred (queue fl)\<rparr>) (pflow w)\<rparr>)"

definition addCaller :: "nat \<Rightarrow> pworld \<Rightarrow> pworld" where
  "addCaller pid w =
     (case currentCaller w of
        None \<Rightarrow> w
      | Some caller \<Rightarrow>
          if property caller \<noteq> Some pid then w\<lparr>heap := (heap w)(pid := on caller (heap w pid))\<rparr>
          else w)"

definition defaultGetter :: "nat \<Rightarrow> pworld \<Rightarrow> jsval \<times> pworld" where
  "defaultGetter pid w = (let w1 = addCaller pid w in (val (heap w1 pid), w1))"

text \<open>
  \<open>delete this.proObject.__pro__.properties[this.property]\<close> raises a TypeError when
  \<open>this.proObject\<close> is \<open>undefined\<close>; an \<open>undefined\<close> property name is the key
  \<open>"undefined"\<close>.  \<open>P.U.defValProp(obj, prop, true, true, true, val)\<close> defines a plain
  data field.
\<close>

definition doDestroy :: "nat \<Rightarrow> pworld \<Rightarrow> error option \<times> pworld" where
  "doDestroy pid w =
     (let p = heap w pid
      in case proObject p of
           None \<Rightarrow> (Some TypeError, w)
         | Some h \<Rightarrow>
             let name = (case propertyName p of None \<Rightarrow> ''undefined'' | Some f \<Rightarrow> f);
                 ho = hosts w h;
                 ho1 = ho\<lparr>properties := (properties ho)(name := None)\<rparr>;
                 ho2 = ho1\<lparr>hfields := (hfields ho1)(name := Some (Plain (val p)))\<rparr>;
                 p1 = p\<lparr>oldVal := Undefined, accessors := False, propertyName := None,
                        proObject := None, val := Undefined, isStaticTyped := False\<rparr>
             in (None, w\<lparr>hosts := (hosts w)(h := ho2), heap := (heap w)(pid := p1)\<rparr>))"

text \<open>
  Modelled from the spec: \<open>Actor.destroy\<close> is not among the source files.  The spec's
  words: it transitions to destroyed and clears listeners, errorListeners and transforms;
  it is idempotent.  The subtype's part of the destruction is \<open>doDestroy\<close>.
\<close>

definition destroy :: "nat \<Rightarrow> pworld \<Rightarrow> error option \<times> pworld" where
  "destroy pid w =
     (if state (heap w pid) = destroyed then (None, w)
      else
        case doDestroy pid w of
          (Some e, w1) \<Rightarrow> (Some e, w1)
        | (None, w1) \<Rightarrow>
            (None, w1\<lparr>heap := (heap w1)(pid := (heap w1 pid)\<lparr>state := destroyed, listeners := [],
                                                      errListeners := [], transforms := []\<rparr>)\<rparr>))"

text \<open>
  Modelled from the spec: \<open>ObjectCore.makeProp\<close> is not among the source files.  The
  spec's words: the cell is rebuilt from scratch against the new value's type.  The new
  cell is constructed as the constructor \<open>Property\<close> in the source does: it is entered in
  the host's property table, takes the field's value as its value and \<open>null\<close> as its old
  value, installs the accessor pair on the field, is ready, and is statically typed when
  the host's statics name the field.  It gets the listeners passed to \<open>makeProp\<close>.
\<close>

definition makeProp :: "nat \<Rightarrow> string \<Rightarrow> listener list \<Rightarrow> pworld \<Rightarrow> nat \<times> pworld" where
  "makeProp h name ls w =
     (let ho = hosts w h;
          pid = nextRef w;
          v = (case hfields ho name of
                 None \<Rightarrow> Undefined
               | Some (Plain x) \<Rightarrow> x
               | Some (Accessor q) \<Rightarrow> val (heap w q));
          p = \<lparr>state = ready, listeners = ls, errListeners = [], transforms = [],
               proObject = Some h, propertyName = Some name, val = v, oldVal = Null,
               isStaticTyped = (name \<in> set (statics ho)), ptype = Types_type v, accessors = True\<rparr>;
          ho1 = ho\<lparr>properties := (properties ho)(name := Some pid)\<rparr>;
          ho2 = ho1\<lparr>hfields := (hfields ho1)(name := Some (Accessor pid))\<rparr>
      in (pid, w\<lparr>heap := (heap w)(pid := p), hosts := (hosts w)(h := ho2), nextRef := Suc pid\<rparr>))"

text \<open>
  \<open>reProb\<close> returns \<open>undefined\<close> (\<open>Inr None\<close>) for a statically typed property and for
  one that is not ready, and the new property otherwise.
\<close>

definition reProb :: "nat \<Rightarrow> pworld \<Rightarrow> (error + nat option) \<times> pworld" where
  "reProb pid w =
     (let p = heap w pid
      in if isStaticTyped p \<or> state p \<noteq> ready then (Inr None, w)
         else
           let po = proObject p;
               name = propertyName p;
               l = listeners p
           in case destroy pid w of
                (Some e, w1) \<Rightarrow> (Inl e, w1)
              | (None, w1) \<Rightarrow>
                  (case po of
                     None \<Rightarrow> (Inl TypeError, w1)
                   | Some h \<Rightarrow>
                       let r = makeProp h (case name of None \<Rightarrow> ''undefined'' | Some f \<Rightarrow> f) l w1
                       in (Inr (Some (fst r)), snd r)))"

text \<open>
  The setter returns nothing; the first component of the result is the exception it
  raised, if any.  \<open>P.P.reProb(property).update()\<close> raises a TypeError when \<open>reProb\<close>
  returned \<open>undefined\<close>.  \<open>setter\<close> is the optional second argument of
  \<open>defaultSetter\<close>.
\<close>

definition defaultSetter :: "nat \<Rightarrow> (jsval \<Rightarrow> jsval) option \<Rightarrow> jsval \<Rightarrow> pworld \<Rightarrow> error option \<times> pworld" where
  "defaultSetter pid setter newVal w =
     (let property = heap w pid
      in case transform property newVal of
           Inl e \<Rightarrow> (Some e, w)
         | Inr newVal1 \<Rightarrow>
             if newVal1 = BadValue \<or> strict_eq (val property) newVal1 then (None, w)
             else
               let p1 = property\<lparr>oldVal := val property\<rparr>;
                   p2 = p1\<lparr>val := (case setter of Some f \<Rightarrow> f newVal1 | None \<Rightarrow> newVal1)\<rparr>;
                   w1 = w\<lparr>heap := (heap w)(pid := p2)\<rparr>
               in if ptype p2 \<noteq> Types_auto \<and> Types_type (val p2) \<noteq> ptype p2
                  then (case reProb pid w1 of
                          (Inl e, w2) \<Rightarrow> (Some e, w2)
                        | (Inr None, w2) \<Rightarrow> (Some TypeError, w2)
                        | (Inr (Some q), w2) \<Rightarrow> (None, update q w2))
                  else (None, update pid w1))"

section \<open>ProAct.Stream\<close>

text \<open>
  A stream is an actor without state of its own; what it delivers to a listener is the
  event or value it was triggered with (\<open>makeEvent\<close> returns its source).
\<close>

type_synonym Stream = Actor

text \<open>
  Modelled from the spec: \<open>Observable.prototype.defer\<close>, which the stream uses for a
  listener that belongs to a property, is not among the source files.  Per the spec it
  defers the listener's invocation to the flow, collapsing repeated notifications
  (push-once).  For any other listener the stream's own \<open>defer\<close> (here
  \<open>stream_defer\<close>) pushes unconditionally.
\<close>

definition stream_defer :: "jsval \<Rightarrow> listener \<Rightarrow> (key \<times> jsval) list \<Rightarrow> (key \<times> jsval) list" where
  "stream_defer event l q =
     (if property l \<noteq> None then flow_pushOnce (key_of l) event q
      else flow_push (key_of l) event q)"

fun defer_all :: "jsval \<Rightarrow> listener list \<Rightarrow> (key \<times> jsval) list \<Rightarrow> (key \<times> jsval) list" where
  "defer_all event [] q = q"
| "defer_all event (l # ls) q = defer_all event ls (stream_defer event l q)"

text \<open>
  Modelled from the spec: \<open>Observable.update(source, listeners)\<close> is not among the source
  files.  The spec's words: for every subscribed listener, defer its invocation to the
  flow.  The stream passes the listeners to notify: its error listeners from
  \<open>triggerErr\<close>, by default its value listeners.
\<close>

definition stream_update :: "jsval \<Rightarrow> listener list \<Rightarrow> jsval flow \<Rightarrow> jsval flow" where
  "stream_update src ls fl = run (\<lambda>f. f\<lparr>queue := defer_all src ls (queue f)\<rparr>) fl"

definition triggerErr :: "Stream \<Rightarrow> jsval \<Rightarrow> jsval flow \<Rightarrow> jsval flow" where
  "triggerErr s err fl = stream_update err (errListeners s) fl"

definition go :: "Stream \<Rightarrow> jsval \<Rightarrow> bool \<Rightarrow> jsval flow \<Rightarrow> jsval flow" where
  "go s event useTransformations fl =
     (if useTransformations
      then (case transform s event of
              Inl e \<Rightarrow> triggerErr s e fl
            | Inr event1 \<Rightarrow>
                if event1 = BadValue then fl else stream_update event1 (listeners s) fl)
      else if event = BadValue then fl
      else stream_update event (listeners s) fl)"

definition trigger :: "Stream \<Rightarrow> jsval \<Rightarrow> bool option \<Rightarrow> jsval flow \<Rightarrow> jsval flow" where
  "trigger s event useTransformations fl =
     go s event (case useTransformations of None \<Rightarrow> True | Some b \<Rightarrow> b) fl"

text \<open>Everything the flow has executed or still holds, oldest first.\<close>

definition delivered :: "'e flow \<Rightarrow> (key \<times> 'e) list" where
  "delivered fl = executed fl @ queue fl"

section \<open>Diff-based replace\<close>

text \<open>
  \<open>P.U.diff\<close> is not among the source files; the spec describes it as a sequence
  alignment, an edit-script computation.  An edit script keeps, deletes or inserts one
  element at a time; \<open>src_of\<close> is the array it starts from, \<open>dst_of\<close> the array it
  produces, \<open>cost\<close> the number of its deletions and insertions.
\<close>

datatype 'a edit = Keep 'a | Del 'a | Ins 'a

fun cost :: "'a edit list \<Rightarrow> nat" where
  "cost [] = 0"
| "cost (Keep x # es) = cost es"
| "cost (e # es) = Suc (cost es)"

fun src_of :: "'a edit list \<Rightarrow> 'a list" where
  "src_of [] = []"
| "src_of (Keep x # es) = x # src_of es"
| "src_of (Del x # es) = x # src_of es"
| "src_of (Ins y # es) = src_of es"

fun dst_of :: "'a edit list \<Rightarrow> 'a list" where
  "dst_of [] = []"
| "dst_of (Keep x # es) = x # dst_of es"
| "dst_of (Del x # es) = dst_of es"
| "dst_of (Ins y # es) = y # dst_of es"

text \<open>
  Modelled from the spec: the alignment inside \<open>P.U.diff\<close> is missing.  The spec's words:
  it computes the minimal set of operations transforming old into new (a sequence
  alignment, not a naive full replace).  \<open>align\<close> keeps an element both arrays start
  with and otherwise takes the cheaper of deleting the old and inserting the new element.
\<close>

fun align :: "'a list \<Rightarrow> 'a list \<Rightarrow> 'a edit list" where
  "align [] ys = map Ins ys"
| "align (x # xs) [] = map Del (x # xs)"
| "align (x # xs) (y # ys) =
     (if x = y then Keep x # align xs ys
      else
        let d = Del x # align xs (y # ys);
            i = Ins y # align (x # xs) ys
        in if cost d \<le> cost i then d else i)"

type_synonym 'a region = "int \<times> 'a list \<times> 'a list"

fun close_region :: "'a region option \<Rightarrow> 'a region list" where
  "close_region None = []"
| "close_region (Some r) = [r]"

text \<open>
  Modelled from the spec: the grouping inside \<open>P.U.diff\<close> is missing.  The spec's words:
  contiguous splice operations, one per contiguous changed region.  \<open>regions i cur es\<close>
  cuts a script into its maximal runs of deletions and insertions: \<open>i\<close> is the position
  reached in the new array, \<open>cur\<close> the region that is open, and a region is the position
  where it starts in the new array, the removed elements \<open>o\<close> and the inserted elements
  \<open>n\<close>.
\<close>

fun regions :: "int \<Rightarrow> 'a region option \<Rightarrow> 'a edit list \<Rightarrow> 'a region list" where
  "regions i cur [] = close_region cur"
| "regions i cur (Keep x # es) = close_region cur @ regions (i + 1) None es"
| "regions i cur (Del x # es) =
     regions i (Some (case cur of None \<Rightarrow> (i, [x], []) | Some (j, o1, n1) \<Rightarrow> (j, o1 @ [x], n1))) es"
| "regions i cur (Ins y # es) =
     regions (i + 1) (Some (case cur of None \<Rightarrow> (i, [], [y]) | Some (j, o1, n1) \<Rightarrow> (j, o1, n1 @ [y]))) es"

text \<open>
  Modelled from the spec: \<open>P.U.diff(array1, array2)\<close> is missing.  The spec's words: given
  an old and a new snapshot it computes the minimal set of contiguous splice operations
  transforming old into new.  The result is the table that \<open>updateByDiff\<close> walks: for the
  start position \<open>j\<close> of a region the entry \<open>{o, n}\<close>.
\<close>

definition diff :: "'a list \<Rightarrow> 'a list \<Rightarrow> (int \<times> ('a list \<times> 'a list) option) list" where
  "diff array1 array2 = map (\<lambda>(j, o1, n1). (j, Some (o1, n1))) (regions 0 None (align array1 array2))"

text \<open>
  The property key of a position: its decimal digits, as \<open>for (j in diff)\<close> yields them.
\<close>

function decimal :: "nat \<Rightarrow> string" where
  "decimal n = (if n < 10 then [''0123456789'' ! n]
                else decimal (n div 10) @ [''0123456789'' ! (n mod 10)])"
  by pat_completeness auto
termination
  by (relation "measure id") auto

declare decimal.simps [simp del]

text \<open>
  \<open>updateByDiff\<close> walks the table of the diff in the order of its keys and skips an entry
  that is not set.  The loop variable \<open>j\<close> is the key of the entry, a string, and it is
  passed on as the index of the splice.
\<close>

fun updateByDiff_loop ::
  "'a property_update \<Rightarrow> (int \<times> ('a list \<times> 'a list) option) list \<Rightarrow> 'a world \<Rightarrow> 'a world" where
  "updateByDiff_loop pu [] w = w"
| "updateByDiff_loop pu ((j, cdiff) # rest) w =
     updateByDiff_loop pu rest
       (case cdiff of
          None \<Rightarrow> w
        | Some c \<Rightarrow> updateSplice pu (Key (decimal (nat j))) (Some (fst c)) (Some (snd c)) w)"

definition updateByDiff :: "'a property_update \<Rightarrow> 'a list \<Rightarrow> 'a world \<Rightarrow> 'a world" where
  "updateByDiff pu old w = updateByDiff_loop pu (diff old (array w)) w"

text \<open>
  Replaying the table of a diff as the splices its entries describe, and the update a
  region is announced with.  A region is changed when it removes or inserts something.
\<close>

fun apply_regions :: "'a region list \<Rightarrow> 'a list \<Rightarrow> 'a list" where
  "apply_regions [] a = a"
| "apply_regions (r # rs) a =
     apply_regions rs (snd (native_splice a (fst r) (Some (int (length (fst (snd r))))) (snd (snd r))))"

fun region_event :: "'a region \<Rightarrow> 'a event" where
  "region_event (j, o1, n1) = Event None (code op_splice) (Key (decimal (nat j))) (PElems o1) (PElems n1)"

definition region_update :: "'a region \<Rightarrow> 'a effect" where
  "region_update r = Update (region_event r)"

text \<open>
  The listeners \<open>willUpdateSplice\<close> notifies of a region, and the invocations it enqueues
  for them.
\<close>

definition splice_listeners :: "'a world \<Rightarrow> 'a list \<Rightarrow> 'a list \<Rightarrow> listener list" where
  "splice_listeners w s n =
     (if length s = length n then indexListeners w
      else if length n = 0 \<or> length s = 0 then lengthListeners w
      else lengthListeners w @ indexListeners w)"

definition region_requests :: "'a property_update \<Rightarrow> 'a world \<Rightarrow> 'a region \<Rightarrow> (key \<times> 'a event) list" where
  "region_requests pu w r =
     concat (map (notify pu (region_event r)) (splice_listeners w (fst (snd r)) (snd (snd r))))"

fun changed :: "'a region \<Rightarrow> bool" where
  "changed (j, o1, n1) = (o1 \<noteq> [] \<or> n1 \<noteq> [])"

section \<open>Example states\<close>

definition fun_listener :: listener where
  "fun_listener = \<lparr>lid = 1, isFunction = True, call = 0, property = None\<rparr>"

definition obj_listener :: listener where
  "obj_listener = \<lparr>lid = 2, isFunction = False, call = 7, property = None\<rparr>"

definition no_update :: "int property_update" where
  "no_update p ev = []"

definition seq123 :: "int world" where
  "seq123 = \<lparr>array = [1, 2, 3], indexProps = {0, 1, 2},
              indexListeners = [fun_listener], lengthListeners = [obj_listener],
              flow = \<lparr>running = False, queue = [], executed = []\<rparr>, log = []\<rparr>"

definition seq_empty :: "int world" where
  "seq_empty = \<lparr>array = [], indexProps = {},
                 indexListeners = [fun_listener], lengthListeners = [obj_listener],
                 flow = \<lparr>running = False, queue = [], executed = []\<rparr>, log = []\<rparr>"

definition cell5 :: Property where
  "cell5 = \<lparr>state = ready, listeners = [obj_listener], errListeners = [], transforms = [],
             proObject = Some 0, propertyName = Some ''v'', val = Num 5, oldVal = Null,
             isStaticTyped = True, ptype = Types_simple, accessors = True\<rparr>"

definition host_v :: host where
  "host_v = \<lparr>hfields = (\<lambda>f. None)(''v'' := Some (Accessor 0)),
              properties = (\<lambda>f. None)(''v'' := Some 0), statics = [''v'']\<rparr>"

definition static_world :: pworld where
  "static_world = \<lparr>heap = (\<lambda>r. cell5), hosts = (\<lambda>r. host_v), nextRef = 1,
                    pflow = \<lparr>running = False, queue = [], executed = []\<rparr>, currentCaller = None\<rparr>"

definition dynamic_world :: pworld where
  "dynamic_world = \<lparr>heap = (\<lambda>r. cell5\<lparr>isStaticTyped := False\<rparr>), hosts = (\<lambda>r. host_v\<lparr>statics := []\<rparr>),
                     nextRef = 1,
                     pflow = \<lparr>running = False, queue = [], executed = []\<rparr>, currentCaller = None\<rparr>"


definition own_listener :: listener where
  "own_listener = \<lparr>lid = 3, isFunction = False, call = 8, property = Some 0\<rparr>"

definition other_listener :: listener where
  "other_listener = \<lparr>lid = 4, isFunction = False, call = 9, property = Some 1\<rparr>"

definition failing_stream :: Stream where
  "failing_stream = \<lparr>state = ready, listeners = [fun_listener], errListeners = [obj_listener],
                      transforms = [\<lambda>v. Inl (Str ''boom'')]\<rparr>"

definition idle_flow :: "jsval flow" where
  "idle_flow = \<lparr>running = False, queue = [], executed = []\<rparr>"

definition seq1994 :: "int world" where
  "seq1994 = \<lparr>array = [1, 9, 9, 4], indexProps = {0, 1, 2, 3},
               indexListeners = [fun_listener], lengthListeners = [obj_listener],
               flow = \<lparr>running = False, queue = [], executed = []\<rparr>, log = []\<rparr>"

section \<open>Push-once delivery\<close>

lemma flow_pushOnce_other:
  "k' \<noteq> k \<Longrightarrow> filter (\<lambda>e. fst e = k') (flow_pushOnce k a q) = filter (\<lambda>e. fst e = k') q"
  by (induction q) auto

lemma flow_pushOnce_keys: "fst ` set (flow_pushOnce k a q) = insert k (fst ` set q)"
  by (induction q) auto

lemma flow_pushOnce_distinct:
  "distinct (map fst q) \<Longrightarrow> distinct (map fst (flow_pushOnce k a q))"
proof (induction q)
  case Nil
  then show ?case by simp
next
  case (Cons e q)
  then show ?case
    using flow_pushOnce_keys [of k a q] by auto
qed

lemma filter_absent: "k \<notin> fst ` set q \<Longrightarrow> filter (\<lambda>e. fst e = k) q = []"
  by (induction q) auto

lemma flow_pushOnce_same:
  "distinct (map fst q) \<Longrightarrow> filter (\<lambda>e. fst e = k) (flow_pushOnce k a q) = [(k, a)]"
proof (induction q)
  case Nil
  then show ?case by simp
next
  case (Cons e q)
  then show ?case by (auto simp add: filter_absent)
qed

lemma pushOnceAll_append: "pushOnceAll (rs @ ts) q = pushOnceAll ts (pushOnceAll rs q)"
  by (induction rs arbitrary: q) auto

lemma pushOnceAll_distinct:
  "distinct (map fst q) \<Longrightarrow> distinct (map fst (pushOnceAll rs q))"
  by (induction rs arbitrary: q) (auto simp add: flow_pushOnce_distinct)

lemma pushOnceAll_other:
  "k \<notin> fst ` set rs \<Longrightarrow> filter (\<lambda>e. fst e = k) (pushOnceAll rs q) = filter (\<lambda>e. fst e = k) q"
  by (induction rs arbitrary: q) (auto simp add: flow_pushOnce_other)

lemma pushOnceAll_last:
  "distinct (map fst q) \<Longrightarrow> k \<in> fst ` set rs \<Longrightarrow>
   filter (\<lambda>e. fst e = k) (pushOnceAll rs q) = [(k, snd (last (filter (\<lambda>e. fst e = k) rs)))]"
proof (induction rs arbitrary: q)
  case Nil
  then show ?case by simp
next
  case (Cons r rs)
  show ?case
  proof (cases "k \<in> fst ` set rs")
    case True
    then have ne: "filter (\<lambda>e. fst e = k) rs \<noteq> []"
      by (auto simp add: filter_empty_conv)
    have "filter (\<lambda>e. fst e = k) (pushOnceAll rs (flow_pushOnce (fst r) (snd r) q))
          = [(k, snd (last (filter (\<lambda>e. fst e = k) rs)))]"
      using Cons.IH [OF flow_pushOnce_distinct [OF Cons.prems(1)] True] .
    then show ?thesis using ne by simp
  next
    case False
    with Cons.prems(2) have k: "fst r = k" by auto
    have "filter (\<lambda>e. fst e = k) rs = []" using False by (rule filter_absent)
    then show ?thesis
      using k False Cons.prems(1) by (simp add: pushOnceAll_other flow_pushOnce_same)
  qed
qed

lemma willUpdateListeners_loop_requests:
  "willUpdateListeners_loop pu ev ls q = pushOnceAll (concat (map (notify pu ev) ls)) q"
  by (induction ls arbitrary: q) (auto simp add: notify_def pushOnceAll_append split: option.splits)


lemma notify_args:
  assumes "\<forall>p. k \<notin> fst ` set (pu p ev)" and "e \<in> set (concat (map (notify pu ev) ls))" and "fst e = k"
  shows "snd e = ev"
  using assms by (auto simp add: notify_def split: option.splits)

lemma notify_key: "l \<in> set ls \<Longrightarrow> key_of l \<in> fst ` set (concat (map (notify pu ev) ls))"
  by (force simp add: notify_def)

lemma willUpdateListeners_queue:
  "queue (flow (willUpdateListeners pu ls op ind ov nv w))
     = pushOnceAll (concat (map (notify pu (Event None op ind ov nv)) ls)) (queue (flow w))"
  by (simp add: willUpdateListeners_def Let_def willUpdateListeners_loop_requests)

lemma willUpdateListeners_executed:
  "executed (flow (willUpdateListeners pu ls op ind ov nv w)) = executed (flow w)"
  by (simp add: willUpdateListeners_def Let_def)

lemma last_filter_args:
  assumes "\<forall>p. k \<notin> fst ` set (pu p ev)" and "l \<in> set ls" and "key_of l = k"
  shows "snd (last (filter (\<lambda>e. fst e = k) (rs @ concat (map (notify pu ev) ls)))) = ev"
proof -
  let ?ts = "concat (map (notify pu ev) ls)"
  have "k \<in> fst ` set ?ts" using notify_key [OF assms(2)] assms(3) by auto
  then have ne: "filter (\<lambda>e. fst e = k) ?ts \<noteq> []" by (auto simp add: filter_empty_conv)
  then have "last (filter (\<lambda>e. fst e = k) (rs @ ?ts)) = last (filter (\<lambda>e. fst e = k) ?ts)" by simp
  moreover have "last (filter (\<lambda>e. fst e = k) ?ts) \<in> set (filter (\<lambda>e. fst e = k) ?ts)"
    using ne by (rule last_in_set)
  ultimately have "last (filter (\<lambda>e. fst e = k) (rs @ ?ts)) \<in> set ?ts"
    and "fst (last (filter (\<lambda>e. fst e = k) (rs @ ?ts))) = k" by auto
  then show ?thesis using notify_args [of k pu ev _ ls] assms(1) by blast
qed

text \<open>
  C1. With no key pending twice when the enqueuing starts (as in a run that has just been
  opened), enqueuing an invocation with push-once any number of times (at least once)
  before the flush makes the flush execute it exactly once, with the arguments enqueued
  last.  \<open>willUpdateListeners\<close> enqueues each of its listeners with push-once, so the
  flush executes a listener of the list exactly once, and a listener notified by two
  updates before one flush is executed once, with the event of the second update (when no
  update of an owning property enqueues it again with another event).
\<close>

theorem pushOnce_single_execution:
  assumes "distinct (map fst (queue (flow w)))"
  shows "(k \<in> fst ` set rs \<longrightarrow>
            filter (\<lambda>e. fst e = k) (executed (flush ((flow w)\<lparr>queue := pushOnceAll rs (queue (flow w))\<rparr>)))
              = filter (\<lambda>e. fst e = k) (executed (flow w)) @ [(k, snd (last (filter (\<lambda>e. fst e = k) rs)))])
       \<and> queue (flow (willUpdateListeners pu ls op ind ov nv w))
              = pushOnceAll (concat (map (notify pu (Event None op ind ov nv)) ls)) (queue (flow w))
       \<and> (l \<in> set ls \<longrightarrow>
            length (filter (\<lambda>e. fst e = key_of l)
              (executed (flush (flow (willUpdateListeners pu ls op ind ov nv w)))))
              = Suc (length (filter (\<lambda>e. fst e = key_of l) (executed (flow w)))))
       \<and> (l \<in> set ls1 \<and> l \<in> set ls2 \<and> (\<forall>p. key_of l \<notin> fst ` set (pu p (Event None op2 ind2 ov2 nv2))) \<longrightarrow>
            filter (\<lambda>e. fst e = key_of l)
              (executed (flush (flow (willUpdateListeners pu ls2 op2 ind2 ov2 nv2
                                       (willUpdateListeners pu ls1 op1 ind1 ov1 nv1 w)))))
              = filter (\<lambda>e. fst e = key_of l) (executed (flow w)) @ [(key_of l, Event None op2 ind2 ov2 nv2)])"
proof (intro conjI impI)
  assume "k \<in> fst ` set rs"
  then show "filter (\<lambda>e. fst e = k) (executed (flush ((flow w)\<lparr>queue := pushOnceAll rs (queue (flow w))\<rparr>)))
              = filter (\<lambda>e. fst e = k) (executed (flow w)) @ [(k, snd (last (filter (\<lambda>e. fst e = k) rs)))]"
    using pushOnceAll_last [OF assms] by (simp add: flush_def)
next
  show "queue (flow (willUpdateListeners pu ls op ind ov nv w))
          = pushOnceAll (concat (map (notify pu (Event None op ind ov nv)) ls)) (queue (flow w))"
    by (rule willUpdateListeners_queue)
next
  assume "l \<in> set ls"
  then have "key_of l \<in> fst ` set (concat (map (notify pu (Event None op ind ov nv)) ls))"
    by (rule notify_key)
  then show "length (filter (\<lambda>e. fst e = key_of l)
              (executed (flush (flow (willUpdateListeners pu ls op ind ov nv w)))))
              = Suc (length (filter (\<lambda>e. fst e = key_of l) (executed (flow w))))"
    using pushOnceAll_last [OF assms]
    by (simp add: flush_def willUpdateListeners_queue willUpdateListeners_executed)
next
  let ?e1 = "Event None op1 ind1 ov1 nv1" and ?e2 = "Event None op2 ind2 ov2 nv2"
  let ?rs = "concat (map (notify pu ?e1) ls1) @ concat (map (notify pu ?e2) ls2)"
  assume a: "l \<in> set ls1 \<and> l \<in> set ls2 \<and> (\<forall>p. key_of l \<notin> fst ` set (pu p ?e2))"
  then have "key_of l \<in> fst ` set (concat (map (notify pu ?e2) ls2))"
    using notify_key by blast
  then have "key_of l \<in> fst ` set ?rs" by auto
  then have "filter (\<lambda>e. fst e = key_of l) (pushOnceAll ?rs (queue (flow w)))
              = [(key_of l, snd (last (filter (\<lambda>e. fst e = key_of l) ?rs)))]"
    using pushOnceAll_last [OF assms] by blast
  moreover have "snd (last (filter (\<lambda>e. fst e = key_of l) ?rs)) = ?e2"
    using a last_filter_args [of "key_of l" pu ?e2 l ls2] by blast
  ultimately show "filter (\<lambda>e. fst e = key_of l)
              (executed (flush (flow (willUpdateListeners pu ls2 op2 ind2 ov2 nv2
                                       (willUpdateListeners pu ls1 op1 ind1 ov1 nv1 w)))))
              = filter (\<lambda>e. fst e = key_of l) (executed (flow w)) @ [(key_of l, ?e2)]"
    by (simp add: flush_def willUpdateListeners_queue willUpdateListeners_executed pushOnceAll_append)
qed


theorem pushOnce_single_execution_witness:
  "distinct (map fst (queue (flow seq123)))
   \<and> key_of fun_listener \<in> fst ` set [(key_of fun_listener, Event None 0 (Idx 0) PNull PNull),
                                        (key_of obj_listener, Event None 0 (Idx 1) PNull PNull),
                                        (key_of fun_listener, Event None 0 (Idx 2) PNull PNull)]
   \<and> fun_listener \<in> set [fun_listener, obj_listener, fun_listener]
   \<and> filter (\<lambda>e. fst e = key_of fun_listener)
        (executed (flush ((flow seq123)\<lparr>queue :=
            pushOnceAll [(key_of fun_listener, Event None 0 (Idx 0) PNull PNull),
                         (key_of obj_listener, Event None 0 (Idx 1) PNull PNull),
                         (key_of fun_listener, Event None 0 (Idx 2) PNull PNull)] (queue (flow seq123))\<rparr>)))
      = [(key_of fun_listener, Event None 0 (Idx 2) PNull PNull)]
   \<and> length (filter (\<lambda>e. fst e = key_of fun_listener)
        (executed (flush (flow (willUpdateListeners no_update [fun_listener, obj_listener, fun_listener]
            6 (Idx 1) (PElems [2]) (PElems [9]) seq123))))) = 1
   \<and> filter (\<lambda>e. fst e = key_of fun_listener)
        (executed (flush (flow (willUpdateListeners no_update [obj_listener, fun_listener] 4 (Idx (- 1)) PNull PNull
            (willUpdateListeners no_update [fun_listener] 6 (Idx 1) (PElems [2]) (PElems [9]) seq123)))))
      = [(key_of fun_listener, Event None 4 (Idx (- 1)) PNull PNull)]"
  using pushOnce_single_execution [of seq123 "key_of fun_listener"
          "[(key_of fun_listener, Event None 0 (Idx 0) PNull PNull),
            (key_of obj_listener, Event None 0 (Idx 1) PNull PNull),
            (key_of fun_listener, Event None 0 (Idx 2) PNull PNull)]"
          no_update "[fun_listener, obj_listener, fun_listener]" 6 "Idx 1" "PElems [2]" "PElems [9]"
          fun_listener "[fun_listener]" "[obj_listener, fun_listener]" 4 "Idx (- 1)" PNull PNull
          6 "Idx 1" "PElems [2]" "PElems [9]"]
  by (simp add: seq123_def no_update_def key_of_def fun_listener_def obj_listener_def)

section \<open>Index-scoped and length-scoped listeners\<close>

lemma isIndexOp_code:
  "isIndexOp (code x) \<longleftrightarrow> x = op_set \<or> x = op_reverse \<or> x = op_sort"
  by (cases x) (simp_all add: isIndexOp_def)

text \<open>
  C4. \<open>willUpdateSplice\<close>, given the removed and the inserted elements, notifies the
  index-scoped listeners alone when as many elements were removed as inserted (and nobody
  at all when that count is zero), the length-scoped listeners alone when exactly one of
  the two counts is zero, and both sets when the counts are nonzero and differ; \<open>set\<close>,
  \<open>reverse\<close> and \<open>sort\<close> are the index operations.
\<close>

theorem willUpdateSplice_listeners:
  "(length s = length n \<and> length s \<noteq> 0 \<longrightarrow>
      willUpdateSplice pu index (Some s) (Some n) w =
        willUpdateListeners pu (indexListeners w) (code op_splice) index (PElems s) (PElems n) w)
   \<and> (length s = 0 \<and> length n = 0 \<longrightarrow> willUpdateSplice pu index (Some s) (Some n) w = w)
   \<and> ((length s = 0) \<noteq> (length n = 0) \<longrightarrow>
      willUpdateSplice pu index (Some s) (Some n) w =
        willUpdateListeners pu (lengthListeners w) (code op_splice) index (PElems s) (PElems n) w)
   \<and> (length s \<noteq> 0 \<and> length n \<noteq> 0 \<and> length s \<noteq> length n \<longrightarrow>
      willUpdateSplice pu index (Some s) (Some n) w =
        willUpdateListeners pu (lengthListeners w @ indexListeners w) (code op_splice) index
          (PElems s) (PElems n) w)
   \<and> (\<forall>x. isIndexOp (code x) \<longleftrightarrow> x = op_set \<or> x = op_reverse \<or> x = op_sort)"
  by (auto simp add: willUpdateSplice_def isIndexOp_code)

theorem willUpdateSplice_listeners_witness:
  "queue (flow (willUpdateSplice no_update (Idx 1) (Some [2, 3]) (Some [9, 9]) seq123))
     = [(key_of fun_listener, Event None 6 (Idx 1) (PElems [2, 3]) (PElems [9, 9]))]
   \<and> willUpdateSplice no_update (Idx 1) (Some []) (Some []) seq123 = seq123
   \<and> queue (flow (willUpdateSplice no_update (Idx 1) (Some [2, 3]) (Some []) seq123))
     = [(key_of obj_listener, Event None 6 (Idx 1) (PElems [2, 3]) (PElems []))]
   \<and> queue (flow (willUpdateSplice no_update (Idx 1) (Some [2, 3]) (Some [9]) seq123))
     = [(key_of obj_listener, Event None 6 (Idx 1) (PElems [2, 3]) (PElems [9])),
        (key_of fun_listener, Event None 6 (Idx 1) (PElems [2, 3]) (PElems [9]))]
   \<and> isIndexOp (code op_reverse) \<and> \<not> isIndexOp (code op_splice)"
  using willUpdateSplice_listeners [of "[2, 3]" "[9, 9]" no_update "Idx 1" seq123]
        willUpdateSplice_listeners [of "[]" "[]" no_update "Idx 1" seq123]
        willUpdateSplice_listeners [of "[2, 3]" "[]" no_update "Idx 1" seq123]
        willUpdateSplice_listeners [of "[2, 3]" "[9]" no_update "Idx 1" seq123]
  by (simp add: willUpdateListeners_def seq123_def no_update_def Let_def key_of_def
        fun_listener_def obj_listener_def isIndexOp_def)

section \<open>Mutations of an empty sequence\<close>

text \<open>
  C10. On a sequence whose backing array is empty, \<open>pop\<close>, \<open>shift\<close>, \<open>reverse\<close> and
  \<open>sort\<close> return \<open>undefined\<close> (\<open>None\<close>) and leave the whole state as it was: the
  backing array, the index-cells, the queue of the flow and the log.
\<close>

theorem empty_sequence_noop:
  assumes "array w = []"
  shows "pop pu w = (None, w) \<and> shift pu w = (None, w)
       \<and> reverse pu w = (None, w) \<and> pArray_sort pu srt w = (None, w)"
  using assms by (simp add: pop_def shift_def reverse_def pArray_sort_def)

theorem empty_sequence_noop_witness:
  "array seq_empty = []
   \<and> pop no_update seq_empty = (None, seq_empty) \<and> shift no_update seq_empty = (None, seq_empty)
   \<and> reverse no_update seq_empty = (None, seq_empty)
   \<and> pArray_sort no_update (\<lambda>xs. xs) seq_empty = (None, seq_empty)"
  using empty_sequence_noop [of seq_empty no_update "\<lambda>xs. xs"]
  by (simp add: seq_empty_def)

section \<open>Index-cells and the backing length\<close>

lemma defineIndexProp_simps:
  "array (defineIndexProp i w) = array w" "flow (defineIndexProp i w) = flow w"
  "indexProps (defineIndexProp i w) = insert i (indexProps w)"
  "log (defineIndexProp i w) = log w @ [DefineIndexProp i]"
  by (simp_all add: defineIndexProp_def)

lemma deleteIndex_simps:
  "array (deleteIndex i w) = array w" "flow (deleteIndex i w) = flow w"
  "indexProps (deleteIndex i w) = indexProps w - {i}"
  "log (deleteIndex i w) = log w @ [DeleteIndex i]"
  by (simp_all add: deleteIndex_def)

lemma willUpdateListeners_frame:
  "array (willUpdateListeners pu ls op ind ov nv w) = array w"
  "indexProps (willUpdateListeners pu ls op ind ov nv w) = indexProps w"
  "log (willUpdateListeners pu ls op ind ov nv w) = log w @ [Update (Event None op ind ov nv)]"
  by (simp_all add: willUpdateListeners_def Let_def)

lemma flow_run_frame:
  assumes "\<And>v. array (body v) = array v" "\<And>v. indexProps (body v) = indexProps v"
      and "\<And>v. log (body v) = log v @ es"
  shows "array (flow_run body w) = array w" "indexProps (flow_run body w) = indexProps w"
        "log (flow_run body w) = log w @ es"
  using assms by (simp_all add: flow_run_def Let_def)

lemma core_update_frame:
  "array (core_update pu op ind ov nv w) = array w"
  "indexProps (core_update pu op ind ov nv w) = indexProps w"
  "log (core_update pu op ind ov nv w) = log w @ [Update (Event None op ind ov nv)]"
  unfolding core_update_def
  by (rule flow_run_frame; simp add: willUpdateListeners_frame)+

lemma willUpdateSplice_frame:
  "array (willUpdateSplice pu index (Some s) (Some n) w) = array w"
  "indexProps (willUpdateSplice pu index (Some s) (Some n) w) = indexProps w"
  "log (willUpdateSplice pu index (Some s) (Some n) w)
     = log w @ (if s = [] \<and> n = [] then [] else [Update (Event None (code op_splice) index (PElems s) (PElems n))])"
  by (simp_all add: willUpdateSplice_def Let_def willUpdateListeners_frame)

lemma updateSplice_frame:
  "array (updateSplice pu index (Some s) (Some n) w) = array w"
  "indexProps (updateSplice pu index (Some s) (Some n) w) = indexProps w"
  "log (updateSplice pu index (Some s) (Some n) w)
     = log w @ (if s = [] \<and> n = [] then [] else [Update (Event None (code op_splice) index (PElems s) (PElems n))])"
proof -
  let ?body = "willUpdateSplice pu index (Some s) (Some n)"
  let ?es = "if s = [] \<and> n = [] then [] else [Update (Event None (code op_splice) index (PElems s) (PElems n))]"
  have a: "\<And>v. array (?body v) = array v" and i: "\<And>v. indexProps (?body v) = indexProps v"
    and l: "\<And>v. log (?body v) = log v @ ?es"
    by (rule willUpdateSplice_frame)+
  show "array (updateSplice pu index (Some s) (Some n) w) = array w"
    unfolding updateSplice_def
    by (cases "running (flow w)") (simp_all only: if_True if_False a flow_run_frame(1) [of ?body, OF a i l])
  show "indexProps (updateSplice pu index (Some s) (Some n) w) = indexProps w"
    unfolding updateSplice_def
    by (cases "running (flow w)") (simp_all only: if_True if_False i flow_run_frame(2) [of ?body, OF a i l])
  show "log (updateSplice pu index (Some s) (Some n) w) = log w @ ?es"
    unfolding updateSplice_def
    by (cases "running (flow w)") (simp_all only: if_True if_False l flow_run_frame(3) [of ?body, OF a i l])
qed

lemma push_loop_frame:
  "array (push_loop vs w) = array w @ vs"
  "indexProps (push_loop vs w)
     = indexProps w \<union> {int (length (array w)) ..< int (length (array w)) + int (length vs)}"
  "log (push_loop vs w)
     = log w @ map (\<lambda>j. DefineIndexProp (int (length (array w)) + int j)) [0..<length vs]"
proof (induction vs arbitrary: w)
  case Nil
  { case 1 show ?case by simp }
  { case 2 show ?case by simp }
  { case 3 show ?case by simp }
next
  case (Cons v vs)
  { case 1 show ?case by (simp add: Cons.IH Let_def defineIndexProp_simps) }
  { case 2 show ?case by (auto simp add: Cons.IH Let_def defineIndexProp_simps) }
  { case 3 show ?case
      by (simp add: Cons.IH Let_def defineIndexProp_simps upt_conv_Cons map_Suc_upt [symmetric] add.assoc del: upt_Suc) }
qed


lemma length_insert_at: "length (take i a @ v # drop i a) = Suc (length a)"
  by (simp add: min_def)

lemma unshift_loop_frame:
  "i \<le> length (array w) \<Longrightarrow> array (unshift_loop i vs w) = take i (array w) @ vs @ drop i (array w)"
  "indexProps (unshift_loop i vs w)
     = indexProps w \<union> {int (length (array w)) ..< int (length (array w)) + int (length vs)}"
  "log (unshift_loop i vs w)
     = log w @ map (\<lambda>j. DefineIndexProp (int (length (array w)) + int j)) [0..<length vs]"
proof (induction vs arbitrary: w i)
  case Nil
  { case 1 show ?case by simp }
  { case 2 show ?case by simp }
  { case 3 show ?case by simp }
next
  case (Cons v vs)
  { case 1 then show ?case by (simp add: Cons.IH Let_def defineIndexProp_simps min_def) }
  { case 2 show ?case
      by (auto simp add: Cons.IH Let_def defineIndexProp_simps length_insert_at simp del: length_append) }
  { case 3 show ?case
      by (simp add: Cons.IH Let_def defineIndexProp_simps length_insert_at upt_conv_Cons
            map_Suc_upt [symmetric] add.assoc del: upt_Suc length_append) }
qed

lemma defineIndexProps_frame:
  "array (defineIndexProps d i w) = array w"
  "indexProps (defineIndexProps d i w) = indexProps w \<union> {i ..< i + int d}"
  "log (defineIndexProps d i w) = log w @ map (\<lambda>j. DefineIndexProp (i + int j)) [0..<d]"
proof (induction d arbitrary: w i)
  case 0
  { case 1 show ?case by simp }
  { case 2 show ?case by simp }
  { case 3 show ?case by simp }
next
  case (Suc d)
  { case 1 show ?case by (simp add: Suc.IH defineIndexProp_simps) }
  { case 2 show ?case by (auto simp add: Suc.IH defineIndexProp_simps) }
  { case 3 show ?case
      by (simp add: Suc.IH defineIndexProp_simps upt_conv_Cons map_Suc_upt [symmetric] add.assoc del: upt_Suc) }
qed

lemma deleteIndexProps_frame:
  "array (deleteIndexProps d i w) = array w"
  "indexProps (deleteIndexProps d i w) = indexProps w - {i - int d ..< i}"
  "log (deleteIndexProps d i w) = log w @ map (\<lambda>j. DeleteIndex (i - 1 - int j)) [0..<d]"
proof (induction d arbitrary: w i)
  case 0
  { case 1 show ?case by simp }
  { case 2 show ?case by simp }
  { case 3 show ?case by simp }
next
  case (Suc d)
  { case 1 show ?case by (simp add: Suc.IH deleteIndex_simps) }
  { case 2 show ?case by (auto simp add: Suc.IH deleteIndex_simps) }
  { case 3 show ?case
      by (simp add: Suc.IH deleteIndex_simps upt_conv_Cons map_Suc_upt [symmetric] algebra_simps del: upt_Suc) }
qed

lemma upto_union: "(0::int) \<le> n \<Longrightarrow> {0..<n} \<union> {n..<n + int k} = {0..<n + int k}"
  by auto

lemma push_cells:
  assumes "cells_match w"
  shows "cells_match (snd (push pu vals w))"
    and "array (snd (push pu vals w)) = array w @ vals"
    and "log (snd (push pu vals w))
          = log w @ map (\<lambda>j. DefineIndexProp (int (length (array w)) + int j)) [0..<length vals]
              @ [Update (Event None (code op_add) (Idx (int (length (array w)) + int (length vals) - 1)) PNull (PElems vals))]"
proof -
  have res: "snd (push pu vals w)
      = core_update pu (code op_add) (Idx (int (length (array w)) + int (length vals) - 1)) PNull (PElems vals) (push_loop vals w)"
    by (simp add: push_def Let_def push_loop_frame(1))
  show "array (snd (push pu vals w)) = array w @ vals"
    by (simp only: res core_update_frame push_loop_frame)
  have "indexProps (snd (push pu vals w))
          = indexProps w \<union> {int (length (array w)) ..< int (length (array w)) + int (length vals)}"
    by (simp only: res core_update_frame push_loop_frame)
  also have "\<dots> = {0 ..< int (length (array w)) + int (length vals)}"
    using assms by (simp add: cells_match_def upto_union)
  finally show "cells_match (snd (push pu vals w))"
    unfolding cells_match_def by (simp add: res core_update_frame push_loop_frame)
  show "log (snd (push pu vals w))
          = log w @ map (\<lambda>j. DefineIndexProp (int (length (array w)) + int j)) [0..<length vals]
              @ [Update (Event None (code op_add) (Idx (int (length (array w)) + int (length vals) - 1)) PNull (PElems vals))]"
    by (simp only: res core_update_frame push_loop_frame append_assoc)
qed

lemma unshift_cells:
  assumes "cells_match w"
  shows "cells_match (snd (unshift pu vals w))"
    and "array (snd (unshift pu vals w)) = vals @ array w"
    and "log (snd (unshift pu vals w))
          = log w @ map (\<lambda>j. DefineIndexProp (int (length (array w)) + int j)) [0..<length vals]
              @ [Update (Event None (code op_add) (Idx 0) PNull (PElems vals))]"
proof -
  have res: "snd (unshift pu vals w) = core_update pu (code op_add) (Idx 0) PNull (PElems vals) (unshift_loop 0 vals w)"
    by (simp add: unshift_def Let_def)
  have arr: "array (unshift_loop 0 vals w) = vals @ array w"
    using unshift_loop_frame(1) [of 0 w vals] by simp
  show "array (snd (unshift pu vals w)) = vals @ array w"
    by (simp only: res core_update_frame arr)
  have "indexProps (snd (unshift pu vals w))
          = indexProps w \<union> {int (length (array w)) ..< int (length (array w)) + int (length vals)}"
    by (simp only: res core_update_frame unshift_loop_frame)
  also have "\<dots> = {0 ..< int (length (array w)) + int (length vals)}"
    using assms by (simp add: cells_match_def upto_union)
  finally show "cells_match (snd (unshift pu vals w))"
    unfolding cells_match_def by (simp add: res core_update_frame arr add.commute)
  show "log (snd (unshift pu vals w))
          = log w @ map (\<lambda>j. DefineIndexProp (int (length (array w)) + int j)) [0..<length vals]
              @ [Update (Event None (code op_add) (Idx 0) PNull (PElems vals))]"
    by (simp only: res core_update_frame unshift_loop_frame append_assoc)
qed

lemma int_length_pred: "xs \<noteq> [] \<Longrightarrow> int (length xs - Suc 0) = int (length xs) - 1"
  by (cases xs) simp_all

lemma upto_minus_last: "{0..<n} - {n - 1} = {0..<n - (1::int)}"
  by auto

lemma pop_cells:
  assumes "cells_match w" and "array w \<noteq> []"
  shows "cells_match (snd (pop pu w))"
    and "array (snd (pop pu w)) = butlast (array w)"
    and "log (snd (pop pu w))
          = log w @ [DeleteIndex (int (length (array w)) - 1),
                     Update (Event None (code op_remove) (Idx (int (length (array w)) - 1)) (PElem (last (array w))) PNull)]"
proof -
  let ?n = "int (length (array w))"
  let ?w1 = "w\<lparr>array := butlast (array w)\<rparr>"
  have res: "snd (pop pu w)
      = core_update pu (code op_remove) (Idx (?n - 1)) (PElem (last (array w))) PNull (deleteIndex (?n - 1) ?w1)"
    using assms(2) by (simp add: pop_def Let_def deleteIndex_simps int_length_pred)
  show "array (snd (pop pu w)) = butlast (array w)"
    by (simp add: res core_update_frame deleteIndex_simps)
  show "cells_match (snd (pop pu w))"
    using assms unfolding cells_match_def
    by (simp add: res core_update_frame deleteIndex_simps int_length_pred upto_minus_last)
  show "log (snd (pop pu w))
          = log w @ [DeleteIndex (?n - 1),
                     Update (Event None (code op_remove) (Idx (?n - 1)) (PElem (last (array w))) PNull)]"
    by (simp add: res core_update_frame deleteIndex_simps)
qed

lemma shift_cells:
  assumes "cells_match w" and "array w \<noteq> []"
  shows "cells_match (snd (shift pu w))"
    and "array (snd (shift pu w)) = tl (array w)"
    and "log (snd (shift pu w))
          = log w @ [DeleteIndex (int (length (array w)) - 1),
                     Update (Event None (code op_remove) (Idx 0) (PElem (hd (array w))) PNull)]"
proof -
  let ?n = "int (length (array w))"
  let ?w1 = "w\<lparr>array := tl (array w)\<rparr>"
  have res: "snd (shift pu w)
      = core_update pu (code op_remove) (Idx 0) (PElem (hd (array w))) PNull (deleteIndex (?n - 1) ?w1)"
    using assms(2) by (simp add: shift_def Let_def deleteIndex_simps int_length_pred)
  show "array (snd (shift pu w)) = tl (array w)"
    by (simp add: res core_update_frame deleteIndex_simps)
  show "cells_match (snd (shift pu w))"
    using assms unfolding cells_match_def
    by (simp add: res core_update_frame deleteIndex_simps int_length_pred upto_minus_last)
  show "log (snd (shift pu w))
          = log w @ [DeleteIndex (?n - 1),
                     Update (Event None (code op_remove) (Idx 0) (PElem (hd (array w))) PNull)]"
    by (simp add: res core_update_frame deleteIndex_simps)
qed

lemma native_splice_length:
  assumes "0 \<le> h" and "h \<le> int (length xs) - (if index < 0 then max (int (length xs) + index) 0 else min index (int (length xs)))"
  shows "int (length (fst (native_splice xs index (Some h) items))) = h"
    and "int (length (snd (native_splice xs index (Some h) items))) = int (length xs) + int (length items) - h"
  using assms by (auto simp add: native_splice_def Let_def min_def max_def split: if_splits)

lemma splice_cells:
  assumes "cells_match w" and "0 \<le> h"
      and "h \<le> int (length (array w)) - (if index < 0 then max (int (length (array w)) + index) 0 else min index (int (length (array w))))"
  shows "cells_match (snd (pArray_splice pu index (Some h) items w))"
    and "array (snd (pArray_splice pu index (Some h) items w)) = snd (native_splice (array w) index (Some h) items)"
    and "log (snd (pArray_splice pu index (Some h) items w))
          = log w
            @ (if int (length items) > h
               then map (\<lambda>j. DefineIndexProp (int (length (array w)) + int j)) [0..<nat (int (length items) - h)]
               else map (\<lambda>j. DeleteIndex (int (length (array w)) - 1 - int j)) [0..<nat (h - int (length items))])
            @ (if h = 0 \<and> items = [] then []
               else [Update (Event None (code op_splice)
                       (Idx (if bitnot index = 0 then int (length (array w)) + int (length items) - h - index else index))
                       (PElems (fst (native_splice (array w) index (Some h) items))) (PElems items))])"
proof -
  define r where "r = native_splice (array w) index (Some h) items"
  define n where "n = int (length (array w))"
  define k where "k = int (length items)"
  define w1 where "w1 = w\<lparr>array := snd r\<rparr>"
  define w2 where "w2 = (if k > h then defineIndexProps (nat (k - h)) n w1
                         else if h > k then deleteIndexProps (nat (h - k)) n w1 else w1)"
  define index1 where "index1 = (if bitnot index = 0 then int (length (snd r)) - index else index)"
  have l1: "int (length (fst r)) = h" and l2: "int (length (snd r)) = n + k - h"
    using native_splice_length [OF assms(2,3)] by (auto simp add: r_def n_def k_def)
  have e: "fst r = [] \<longleftrightarrow> h = 0" using l1 by auto
  have res: "snd (pArray_splice pu index (Some h) items w) = updateSplice pu (Idx index1) (Some (fst r)) (Some items) w2"
    by (simp add: pArray_splice_def Let_def r_def n_def k_def w1_def w2_def index1_def)
  have a2: "array w2 = snd r"
    by (simp add: w2_def w1_def defineIndexProps_frame deleteIndexProps_frame)
  have i1: "indexProps w1 = {0..<n}" using assms(1) by (simp add: w1_def cells_match_def n_def)
  have i2: "indexProps w2 = {0..<n + k - h}"
  proof -
    have "k > h \<Longrightarrow> {0..<n} \<union> {n..<n + int (nat (k - h))} = {0..<n + k - h}"
      using assms(2) by (auto simp add: n_def)
    moreover have "h > k \<Longrightarrow> {0..<n} - {n - int (nat (h - k))..<n} = {0..<n + k - h}"
      by auto
    ultimately show ?thesis
      by (cases "k > h"; cases "h > k")
         (simp_all add: w2_def i1 defineIndexProps_frame deleteIndexProps_frame)
  qed
  have lg1: "log w1 = log w" by (simp add: w1_def)
  have lg2: "log w2 = log w @ (if k > h then map (\<lambda>j. DefineIndexProp (n + int j)) [0..<nat (k - h)]
                                else map (\<lambda>j. DeleteIndex (n - 1 - int j)) [0..<nat (h - k)])"
    by (cases "k > h"; cases "h > k")
       (simp_all add: w2_def lg1 defineIndexProps_frame deleteIndexProps_frame)
  show "array (snd (pArray_splice pu index (Some h) items w)) = snd (native_splice (array w) index (Some h) items)"
    by (simp only: res updateSplice_frame a2 r_def)
  show "cells_match (snd (pArray_splice pu index (Some h) items w))"
    unfolding cells_match_def by (simp only: res updateSplice_frame a2 i2 l2)
  have i1': "index1 = (if bitnot index = 0 then n + k - h - index else index)"
    by (simp add: index1_def l2)
  have "log (updateSplice pu (Idx index1) (Some (fst r)) (Some items) w2)
          = log w2 @ (if h = 0 \<and> items = [] then []
                      else [Update (Event None (code op_splice) (Idx index1) (PElems (fst r)) (PElems items))])"
    by (simp only: updateSplice_frame e)
  then show "log (snd (pArray_splice pu index (Some h) items w))
          = log w
            @ (if int (length items) > h
               then map (\<lambda>j. DefineIndexProp (int (length (array w)) + int j)) [0..<nat (int (length items) - h)]
               else map (\<lambda>j. DeleteIndex (int (length (array w)) - 1 - int j)) [0..<nat (h - int (length items))])
            @ (if h = 0 \<and> items = [] then []
               else [Update (Event None (code op_splice)
                       (Idx (if bitnot index = 0 then int (length (array w)) + int (length items) - h - index else index))
                       (PElems (fst (native_splice (array w) index (Some h) items))) (PElems items))])"
    unfolding res lg2 i1' by (simp only: r_def n_def k_def append_assoc)
qed


lemma seq123_cells: "cells_match seq123"
  by (auto simp add: cells_match_def seq123_def)

lemma seq123_fields: "array seq123 = [1, 2, 3]" "log seq123 = []"
  by (simp_all add: seq123_def)

text \<open>
  Where the delete count asked of \<open>splice\<close> is between zero and the number of elements
  from the start position on, the invariant is kept: starting from a sequence whose
  index-cells match its backing array, \<open>push\<close>, \<open>unshift\<close>, \<open>pop\<close>, \<open>shift\<close> and such
  a \<open>splice\<close> leave the index-cells matching the new backing array.  A growing call
  defines the new index-cells and then hands the update to the flow; a shrinking call
  deletes the trailing index-cells and then hands the update to the flow.
\<close>

lemma index_cells_match_length:
  assumes "cells_match w"
  shows "cells_match (snd (push pu vals w))
       \<and> log (snd (push pu vals w))
          = log w @ map (\<lambda>j. DefineIndexProp (int (length (array w)) + int j)) [0..<length vals]
              @ [Update (Event None (code op_add) (Idx (int (length (array w)) + int (length vals) - 1)) PNull (PElems vals))]
       \<and> cells_match (snd (unshift pu vals w))
       \<and> log (snd (unshift pu vals w))
          = log w @ map (\<lambda>j. DefineIndexProp (int (length (array w)) + int j)) [0..<length vals]
              @ [Update (Event None (code op_add) (Idx 0) PNull (PElems vals))]
       \<and> (array w \<noteq> [] \<longrightarrow>
            cells_match (snd (pop pu w))
          \<and> log (snd (pop pu w))
             = log w @ [DeleteIndex (int (length (array w)) - 1),
                        Update (Event None (code op_remove) (Idx (int (length (array w)) - 1)) (PElem (last (array w))) PNull)]
          \<and> cells_match (snd (shift pu w))
          \<and> log (snd (shift pu w))
             = log w @ [DeleteIndex (int (length (array w)) - 1),
                        Update (Event None (code op_remove) (Idx 0) (PElem (hd (array w))) PNull)])
       \<and> (0 \<le> h \<and> h \<le> int (length (array w))
                        - (if index < 0 then max (int (length (array w)) + index) 0
                           else min index (int (length (array w)))) \<longrightarrow>
            cells_match (snd (pArray_splice pu index (Some h) items w))
          \<and> log (snd (pArray_splice pu index (Some h) items w))
             = log w
               @ (if int (length items) > h
                  then map (\<lambda>j. DefineIndexProp (int (length (array w)) + int j)) [0..<nat (int (length items) - h)]
                  else map (\<lambda>j. DeleteIndex (int (length (array w)) - 1 - int j)) [0..<nat (h - int (length items))])
               @ (if h = 0 \<and> items = [] then []
                  else [Update (Event None (code op_splice)
                          (Idx (if bitnot index = 0 then int (length (array w)) + int (length items) - h - index else index))
                          (PElems (fst (native_splice (array w) index (Some h) items))) (PElems items))]))"
proof (intro conjI impI)
  show "cells_match (snd (push pu vals w))" using assms by (rule push_cells)
  show "log (snd (push pu vals w))
          = log w @ map (\<lambda>j. DefineIndexProp (int (length (array w)) + int j)) [0..<length vals]
              @ [Update (Event None (code op_add) (Idx (int (length (array w)) + int (length vals) - 1)) PNull (PElems vals))]"
    using assms by (rule push_cells)
  show "cells_match (snd (unshift pu vals w))" using assms by (rule unshift_cells)
  show "log (snd (unshift pu vals w))
          = log w @ map (\<lambda>j. DefineIndexProp (int (length (array w)) + int j)) [0..<length vals]
              @ [Update (Event None (code op_add) (Idx 0) PNull (PElems vals))]"
    using assms by (rule unshift_cells)
next
  assume ne: "array w \<noteq> []"
  show "cells_match (snd (pop pu w))" using assms ne by (rule pop_cells)
  show "log (snd (pop pu w))
             = log w @ [DeleteIndex (int (length (array w)) - 1),
                        Update (Event None (code op_remove) (Idx (int (length (array w)) - 1)) (PElem (last (array w))) PNull)]"
    using assms ne by (rule pop_cells)
  show "cells_match (snd (shift pu w))" using assms ne by (rule shift_cells)
  show "log (snd (shift pu w))
             = log w @ [DeleteIndex (int (length (array w)) - 1),
                        Update (Event None (code op_remove) (Idx 0) (PElem (hd (array w))) PNull)]"
    using assms ne by (rule shift_cells)
next
  assume h: "0 \<le> h \<and> h \<le> int (length (array w))
                        - (if index < 0 then max (int (length (array w)) + index) 0
                           else min index (int (length (array w))))"
  then have h1: "0 \<le> h" and h2: "h \<le> int (length (array w))
                        - (if index < 0 then max (int (length (array w)) + index) 0
                           else min index (int (length (array w))))" by simp_all
  show "cells_match (snd (pArray_splice pu index (Some h) items w))"
    using assms h1 h2 by (rule splice_cells)
  show "log (snd (pArray_splice pu index (Some h) items w))
             = log w
               @ (if int (length items) > h
                  then map (\<lambda>j. DefineIndexProp (int (length (array w)) + int j)) [0..<nat (int (length items) - h)]
                  else map (\<lambda>j. DeleteIndex (int (length (array w)) - 1 - int j)) [0..<nat (h - int (length items))])
               @ (if h = 0 \<and> items = [] then []
                  else [Update (Event None (code op_splice)
                          (Idx (if bitnot index = 0 then int (length (array w)) + int (length items) - h - index else index))
                          (PElems (fst (native_splice (array w) index (Some h) items))) (PElems items))])"
    using assms h1 h2 by (rule splice_cells)
qed

lemma index_cells_match_length_witness:
  "cells_match seq123
   \<and> cells_match (snd (push no_update [7, 8] seq123))
   \<and> log (snd (push no_update [7, 8] seq123))
      = [DefineIndexProp 3, DefineIndexProp 4, Update (Event None 1 (Idx 4) PNull (PElems [7, 8]))]
   \<and> cells_match (snd (unshift no_update [7, 8] seq123))
   \<and> cells_match (snd (pop no_update seq123))
   \<and> log (snd (pop no_update seq123)) = [DeleteIndex 2, Update (Event None 2 (Idx 2) (PElem 3) PNull)]
   \<and> cells_match (snd (shift no_update seq123))
   \<and> log (snd (shift no_update seq123)) = [DeleteIndex 2, Update (Event None 2 (Idx 0) (PElem 1) PNull)]
   \<and> cells_match (snd (pArray_splice no_update 1 (Some 2) [] seq123))
   \<and> log (snd (pArray_splice no_update 1 (Some 2) [] seq123))
      = [DeleteIndex 2, DeleteIndex 1, Update (Event None 6 (Idx 1) (PElems [2, 3]) (PElems []))]"
  using index_cells_match_length [OF seq123_cells, of no_update "[7, 8]" 2 1 "[]"] seq123_cells
  by (simp add: seq123_fields native_splice_def Let_def numeral_2_eq_2 bitnot_def toInt32_def)

text \<open>
  The order in a shrinking call: \<open>pop\<close> on the sequence \<open>[1, 2, 3]\<close> deletes the
  index-cell 2 and then updates, so the index-cell is not released after the update; \<open>shift\<close>
  and \<open>splice\<close> have the same order of statements.
\<close>

lemma pop_releases_before_update:
  "cells_match seq123
   \<and> log (snd (pop no_update seq123)) = [DeleteIndex 2, Update (Event None 2 (Idx 2) (PElem 3) PNull)]
   \<and> \<not> released_after_update (log (snd (pop no_update seq123)))"
  using pop_cells(3) [OF seq123_cells, of no_update] seq123_cells
  by (simp add: seq123_fields)

text \<open>
  C5. The count of index-cells does not always equal the length of the backing array when
  \<open>splice\<close> returns: \<open>splice\<close> counts the index-cells to delete by the delete count it
  was asked for, not by the number of elements removed, and with the start alone by the
  length after the removal.  On the sequence \<open>[1, 2, 3]\<close> with its three index-cells,
  \<open>splice(1, 10)\<close> leaves the backing array \<open>[1]\<close> and no index-cell, and \<open>splice(1)\<close>
  leaves the backing array \<open>[1]\<close> and all three index-cells.
\<close>

theorem splice_breaks_cell_count:
  "cells_match seq123
   \<and> array (snd (pArray_splice no_update 1 (Some 10) [] seq123)) = [1]
   \<and> indexProps (snd (pArray_splice no_update 1 (Some 10) [] seq123)) = {}
   \<and> \<not> cells_match (snd (pArray_splice no_update 1 (Some 10) [] seq123))
   \<and> array (snd (pArray_splice no_update 1 None [] seq123)) = [1]
   \<and> indexProps (snd (pArray_splice no_update 1 None [] seq123)) = {0, 1, 2}
   \<and> \<not> cells_match (snd (pArray_splice no_update 1 None [] seq123))"
proof -
  have a: "array (snd (pArray_splice no_update 1 (Some 10) [] seq123)) = [1]"
    and b: "indexProps (snd (pArray_splice no_update 1 (Some 10) [] seq123)) = {}"
    and c: "array (snd (pArray_splice no_update 1 None [] seq123)) = [1]"
    and d: "indexProps (snd (pArray_splice no_update 1 None [] seq123)) = {0, 1, 2}"
    by (auto simp add: pArray_splice_def native_splice_def Let_def seq123_def updateSplice_frame
          deleteIndexProps_frame bitnot_def toInt32_def)
  have "\<not> cells_match (snd (pArray_splice no_update 1 (Some 10) [] seq123))"
    unfolding cells_match_def a b by simp
  moreover have "\<not> cells_match (snd (pArray_splice no_update 1 None [] seq123))"
    unfolding cells_match_def c d by auto
  ultimately show ?thesis using a b c d seq123_cells by simp
qed

section \<open>The setter of a property\<close>

text \<open>
  C2. When the transform pipeline rejects the new value (its result is the sentinel
  \<open>BadValue\<close>) or its result is strictly equal to the current value, the setter returns
  without an exception and leaves the whole state as it was: \<open>val\<close> and \<open>oldVal\<close> of the
  property, its host, and the flow, so that no listener is notified.
\<close>

theorem defaultSetter_noop:
  assumes "transform (heap w pid) x = Inr y" and "y = BadValue \<or> strict_eq (val (heap w pid)) y"
  shows "defaultSetter pid setter x w = (None, w)"
  using assms by (auto simp add: defaultSetter_def Let_def)

theorem defaultSetter_noop_witness:
  "transform (heap static_world 0) (Num 5) = Inr (Num 5)
   \<and> strict_eq (val (heap static_world 0)) (Num 5)
   \<and> defaultSetter 0 None (Num 5) static_world = (None, static_world)"
  using defaultSetter_noop [of static_world 0 "Num 5" "Num 5" None]
  by (simp add: static_world_def cell5_def transform_def strict_eq_def)

text \<open>
  A statically typed property whose new value has another category than the cell: the
  setter stores the value, \<open>reProb\<close> returns \<open>undefined\<close>, and the call of \<open>update\<close>
  on that result raises a TypeError before any listener is notified.
\<close>

lemma static_type_change_TypeError:
  assumes "transform (heap w pid) x = Inr y" and "y \<noteq> BadValue" and "\<not> strict_eq (val (heap w pid)) y"
      and "isStaticTyped (heap w pid)" and "ptype (heap w pid) \<noteq> Types_auto"
      and "Types_type y \<noteq> ptype (heap w pid)"
  shows "defaultSetter pid None x w
           = (Some TypeError, w\<lparr>heap := (heap w)(pid := (heap w pid)\<lparr>oldVal := val (heap w pid), val := y\<rparr>)\<rparr>)"
  using assms by (simp add: defaultSetter_def Let_def reProb_def)

text \<open>
  C3. The statically typed cell over the field \<open>v\<close> holding \<open>5\<close> is set to an array:
  the setter raises a TypeError; the cell is kept in the property table with the array
  as its value and \<open>5\<close> as its old value, and nothing reaches the flow.
\<close>

theorem static_type_change_throws:
  "fst (defaultSetter 0 None (Arr 1) static_world) = Some TypeError
   \<and> val (heap (snd (defaultSetter 0 None (Arr 1) static_world)) 0) = Arr 1
   \<and> oldVal (heap (snd (defaultSetter 0 None (Arr 1) static_world)) 0) = Num 5
   \<and> ptype (heap (snd (defaultSetter 0 None (Arr 1) static_world)) 0) = Types_simple
   \<and> properties (hosts (snd (defaultSetter 0 None (Arr 1) static_world)) 0) ''v'' = Some 0
   \<and> pflow (snd (defaultSetter 0 None (Arr 1) static_world)) = pflow static_world"
  by (simp add: static_type_change_TypeError static_world_def cell5_def host_v_def transform_def strict_eq_def)


text \<open>
  The other half of C3: a ready, not statically typed cell that is not an auto property
  is destroyed and a new cell of the new value's category takes its place in the
  property table and on the host field.
\<close>

lemma type_change_rebuilds:
  assumes "transform (heap w pid) x = Inr y" and "y \<noteq> BadValue" and "\<not> strict_eq (val (heap w pid)) y"
      and "\<not> isStaticTyped (heap w pid)" and "state (heap w pid) = ready"
      and "ptype (heap w pid) \<noteq> Types_auto" and "Types_type y \<noteq> ptype (heap w pid)"
      and "proObject (heap w pid) = Some h" and "propertyName (heap w pid) = Some f"
      and "pid \<noteq> nextRef w"
  shows "fst (defaultSetter pid None x w) = None"
    and "properties (hosts (snd (defaultSetter pid None x w)) h) f = Some (nextRef w)"
    and "hfields (hosts (snd (defaultSetter pid None x w)) h) f = Some (Accessor (nextRef w))"
    and "ptype (heap (snd (defaultSetter pid None x w)) (nextRef w)) = Types_type y"
    and "val (heap (snd (defaultSetter pid None x w)) (nextRef w)) = y"
    and "state (heap (snd (defaultSetter pid None x w)) pid) = destroyed"
proof -
  let ?p2 = "(heap w pid)\<lparr>oldVal := val (heap w pid), val := y\<rparr>"
  let ?w1 = "w\<lparr>heap := (heap w)(pid := ?p2)\<rparr>"
  have d: "destroy pid ?w1 = (None, snd (destroy pid ?w1))"
    using assms(5,8) by (simp add: destroy_def doDestroy_def Let_def)
  let ?w2 = "snd (destroy pid ?w1)"
  have r: "reProb pid ?w1 = (Inr (Some (nextRef w)), snd (makeProp h f (listeners (heap w pid)) ?w2))"
    using assms(4,5,8,9)
    by (simp add: reProb_def Let_def destroy_def doDestroy_def makeProp_def split: prod.splits)
  have s: "defaultSetter pid None x w
             = (None, update (nextRef w) (snd (makeProp h f (listeners (heap w pid)) ?w2)))"
    using assms(1,2,3,6,7) r by (simp add: defaultSetter_def Let_def)
  have w2: "hfields (hosts ?w2 h) f = Some (Plain y)" "nextRef ?w2 = nextRef w"
           "state (heap ?w2 pid) = destroyed"
    using assms(5,8,9) by (simp_all add: destroy_def doDestroy_def Let_def)
  show "fst (defaultSetter pid None x w) = None" by (simp add: s)
  show "properties (hosts (snd (defaultSetter pid None x w)) h) f = Some (nextRef w)"
    using w2 by (simp add: s update_def makeProp_def Let_def)
  show "hfields (hosts (snd (defaultSetter pid None x w)) h) f = Some (Accessor (nextRef w))"
    using w2 by (simp add: s update_def makeProp_def Let_def)
  show "ptype (heap (snd (defaultSetter pid None x w)) (nextRef w)) = Types_type y"
    using w2 by (simp add: s update_def makeProp_def Let_def)
  show "val (heap (snd (defaultSetter pid None x w)) (nextRef w)) = y"
    using w2 by (simp add: s update_def makeProp_def Let_def)
  show "state (heap (snd (defaultSetter pid None x w)) pid) = destroyed"
    using w2 assms(10) by (simp add: s update_def makeProp_def Let_def)
qed


lemma type_change_rebuilds_example:
  "fst (defaultSetter 0 None (Arr 1) dynamic_world) = None
   \<and> properties (hosts (snd (defaultSetter 0 None (Arr 1) dynamic_world)) 0) ''v'' = Some 1
   \<and> hfields (hosts (snd (defaultSetter 0 None (Arr 1) dynamic_world)) 0) ''v'' = Some (Accessor 1)
   \<and> ptype (heap (snd (defaultSetter 0 None (Arr 1) dynamic_world)) 1) = Types_array
   \<and> state (heap (snd (defaultSetter 0 None (Arr 1) dynamic_world)) 0) = destroyed"
  using type_change_rebuilds [of dynamic_world 0 "Arr 1" "Arr 1" 0 "''v''"]
  by (simp add: dynamic_world_def cell5_def transform_def strict_eq_def)

section \<open>Destroying a property\<close>

lemma doDestroy_effect:
  assumes "proObject (heap w pid) = Some h" and "propertyName (heap w pid) = Some f"
  shows "fst (doDestroy pid w) = None"
    and "properties (hosts (snd (doDestroy pid w)) h) f = None"
    and "hfields (hosts (snd (doDestroy pid w)) h) f = Some (Plain (val (heap w pid)))"
    and "state (heap (snd (doDestroy pid w)) pid) = state (heap w pid)"
    and "proObject (heap (snd (doDestroy pid w)) pid) = None"
  using assms by (simp_all add: doDestroy_def Let_def)

lemma destroy_effect:
  assumes "state (heap w pid) \<noteq> destroyed"
      and "proObject (heap w pid) = Some h" and "propertyName (heap w pid) = Some f"
  shows "fst (destroy pid w) = None"
    and "properties (hosts (snd (destroy pid w)) h) f = None"
    and "hfields (hosts (snd (destroy pid w)) h) f = Some (Plain (val (heap w pid)))"
    and "state (heap (snd (destroy pid w)) pid) = destroyed"
    and "proObject (heap (snd (destroy pid w)) pid) = None"
  using assms by (simp_all add: destroy_def doDestroy_def Let_def)

lemma destroy_destroyed: "state (heap w pid) = destroyed \<Longrightarrow> destroy pid w = (None, w)"
  by (simp add: destroy_def)

text \<open>
  C7. Destroying a property that is not destroyed yet raises no exception, removes it from
  its host's property table and leaves the field as a plain data field holding the
  property's last value; destroying it again raises no exception and changes nothing.
\<close>

theorem destroy_restores_field:
  assumes "state (heap w pid) \<noteq> destroyed"
      and "proObject (heap w pid) = Some h" and "propertyName (heap w pid) = Some f"
  shows "fst (destroy pid w) = None
       \<and> properties (hosts (snd (destroy pid w)) h) f = None
       \<and> hfields (hosts (snd (destroy pid w)) h) f = Some (Plain (val (heap w pid)))
       \<and> destroy pid (snd (destroy pid w)) = (None, snd (destroy pid w))"
  using destroy_effect [OF assms] destroy_destroyed [of "snd (destroy pid w)" pid] by simp

theorem destroy_restores_field_witness:
  "state (heap static_world 0) \<noteq> destroyed
   \<and> proObject (heap static_world 0) = Some 0 \<and> propertyName (heap static_world 0) = Some ''v''
   \<and> fst (destroy 0 static_world) = None
   \<and> properties (hosts (snd (destroy 0 static_world)) 0) ''v'' = None
   \<and> hfields (hosts (snd (destroy 0 static_world)) 0) ''v'' = Some (Plain (Num 5))
   \<and> destroy 0 (snd (destroy 0 static_world)) = (None, snd (destroy 0 static_world))"
  using destroy_restores_field [of static_world 0 0 "''v''"]
  by (simp add: static_world_def cell5_def)

text \<open>
  The second destruction is safe because \<open>destroy\<close> returns at once for a destroyed
  node; \<open>doDestroy\<close> itself, run a second time, raises a TypeError.
\<close>

lemma doDestroy_twice:
  assumes "proObject (heap w pid) = Some h"
  shows "fst (doDestroy pid (snd (doDestroy pid w))) = Some TypeError"
  using assms by (simp add: doDestroy_def Let_def)

section \<open>Subscribing the current caller\<close>

lemma on_distinct: "distinct (listeners a) \<Longrightarrow> distinct (listeners (on l a))"
  by (simp add: on_def)

lemma on_listeners: "set (listeners (on l a)) \<subseteq> insert l (set (listeners a))"
  by (auto simp add: on_def)

text \<open>
  C9. Subscribing never puts a listener twice into the listeners of a node, and reading a
  property through its getter keeps its listeners free of duplicates; when the current
  caller is a listener owned by the property itself the read changes nothing, otherwise
  the caller is subscribed; so a property none of whose listeners is its own has none
  after a read.
\<close>

theorem getter_subscribes_once_not_self:
  assumes "distinct (listeners (heap w pid))"
  shows "distinct (listeners (on l (heap w pid)))
       \<and> distinct (listeners (heap (snd (defaultGetter pid w)) pid))
       \<and> (currentCaller w = Some c \<and> property c = Some pid \<longrightarrow>
            defaultGetter pid w = (val (heap w pid), w))
       \<and> (currentCaller w = Some c \<and> property c \<noteq> Some pid \<longrightarrow>
            defaultGetter pid w
              = (val (heap w pid), w\<lparr>heap := (heap w)(pid := on c (heap w pid))\<rparr>))
       \<and> ((\<forall>k \<in> set (listeners (heap w pid)). property k \<noteq> Some pid) \<longrightarrow>
            (\<forall>k \<in> set (listeners (heap (snd (defaultGetter pid w)) pid)). property k \<noteq> Some pid))"
proof (intro conjI impI)
  show "distinct (listeners (on l (heap w pid)))" using assms by (rule on_distinct)
  show "distinct (listeners (heap (snd (defaultGetter pid w)) pid))"
    using assms by (simp add: defaultGetter_def addCaller_def Let_def on_distinct split: option.splits)
next
  assume "currentCaller w = Some c \<and> property c = Some pid"
  then show "defaultGetter pid w = (val (heap w pid), w)"
    by (simp add: defaultGetter_def addCaller_def Let_def)
next
  assume "currentCaller w = Some c \<and> property c \<noteq> Some pid"
  then show "defaultGetter pid w = (val (heap w pid), w\<lparr>heap := (heap w)(pid := on c (heap w pid))\<rparr>)"
    by (simp add: defaultGetter_def addCaller_def Let_def on_def)
next
  assume a: "\<forall>k \<in> set (listeners (heap w pid)). property k \<noteq> Some pid"
  show "\<forall>k \<in> set (listeners (heap (snd (defaultGetter pid w)) pid)). property k \<noteq> Some pid"
  proof (cases "currentCaller w")
    case None
    then show ?thesis using a by (simp add: defaultGetter_def addCaller_def Let_def)
  next
    case (Some c)
    then show ?thesis using a on_listeners [of c "heap w pid"]
      by (auto simp add: defaultGetter_def addCaller_def Let_def)
  qed
qed


theorem getter_subscribes_once_not_self_witness:
  "distinct (listeners (heap static_world 0))
   \<and> currentCaller (static_world\<lparr>currentCaller := Some own_listener\<rparr>) = Some own_listener
   \<and> property own_listener = Some 0 \<and> property other_listener \<noteq> Some 0
   \<and> listeners (heap static_world 0) = [obj_listener] \<and> property obj_listener \<noteq> Some 0
   \<and> defaultGetter 0 (static_world\<lparr>currentCaller := Some own_listener\<rparr>)
        = (Num 5, static_world\<lparr>currentCaller := Some own_listener\<rparr>)
   \<and> listeners (heap (snd (defaultGetter 0 (static_world\<lparr>currentCaller := Some other_listener\<rparr>))) 0)
        = [obj_listener, other_listener]
   \<and> listeners (heap (snd (defaultGetter 0
          (snd (defaultGetter 0 (static_world\<lparr>currentCaller := Some other_listener\<rparr>))))) 0)
        = [obj_listener, other_listener]"
  using getter_subscribes_once_not_self [of "static_world\<lparr>currentCaller := Some own_listener\<rparr>" 0
          other_listener own_listener]
        getter_subscribes_once_not_self [of "static_world\<lparr>currentCaller := Some other_listener\<rparr>" 0
          other_listener other_listener]
  by (simp add: static_world_def cell5_def own_listener_def other_listener_def obj_listener_def
        defaultGetter_def addCaller_def on_def Let_def)

section \<open>The error path of a stream\<close>

lemma stream_defer_other:
  "k \<noteq> key_of l \<Longrightarrow> filter (\<lambda>e. fst e = k) (stream_defer ev l q) = filter (\<lambda>e. fst e = k) q"
  by (simp add: stream_defer_def flow_push_def flow_pushOnce_other)

lemma flow_pushOnce_set: "set (flow_pushOnce k a q) \<subseteq> insert (k, a) (set q)"
  by (induction q) auto

lemma flow_pushOnce_mem: "(k, a) \<in> set (flow_pushOnce k a q)"
  by (induction q) auto

lemma flow_pushOnce_keeps: "(k', a) \<in> set q \<Longrightarrow> (k', a) \<in> set (flow_pushOnce k a q)"
  by (induction q) auto

lemma stream_defer_set: "set (stream_defer ev l q) \<subseteq> insert (key_of l, ev) (set q)"
  using flow_pushOnce_set [of "key_of l" ev q] by (auto simp add: stream_defer_def flow_push_def)

lemma stream_defer_mem: "(key_of l, ev) \<in> set (stream_defer ev l q)"
  by (simp add: stream_defer_def flow_push_def flow_pushOnce_mem)

lemma stream_defer_keeps: "(k, ev) \<in> set q \<Longrightarrow> (k, ev) \<in> set (stream_defer ev l q)"
  by (simp add: stream_defer_def flow_push_def flow_pushOnce_keeps)

lemma defer_all_other:
  "k \<notin> key_of ` set ls \<Longrightarrow> filter (\<lambda>e. fst e = k) (defer_all ev ls q) = filter (\<lambda>e. fst e = k) q"
  by (induction ls arbitrary: q) (auto simp add: stream_defer_other)

lemma defer_all_set: "set (defer_all ev ls q) \<subseteq> set q \<union> (\<lambda>l. (key_of l, ev)) ` set ls"
proof (induction ls arbitrary: q)
  case Nil
  then show ?case by simp
next
  case (Cons l ls)
  have "set (defer_all ev ls (stream_defer ev l q))
          \<subseteq> set (stream_defer ev l q) \<union> (\<lambda>l. (key_of l, ev)) ` set ls"
    by (rule Cons.IH)
  then show ?case using stream_defer_set [of ev l q] by auto
qed

lemma defer_all_keeps: "(k, ev) \<in> set q \<Longrightarrow> (k, ev) \<in> set (defer_all ev ls q)"
  by (induction ls arbitrary: q) (auto simp add: stream_defer_keeps)

lemma defer_all_mem: "l \<in> set ls \<Longrightarrow> (key_of l, ev) \<in> set (defer_all ev ls q)"
  by (induction ls arbitrary: q) (auto simp add: stream_defer_mem defer_all_keeps)

lemma delivered_stream_update:
  "delivered (stream_update src ls fl) = executed fl @ defer_all src ls (queue fl)"
  by (simp add: delivered_def stream_update_def run_def flush_def)

text \<open>
  C8. \<open>triggerErr\<close> leaves what the flow has executed or holds for a listener that is not
  an error listener as it was; everything it adds is the error, for an error listener;
  and every error listener gets the error.  When the transform pipeline raises an
  exception during \<open>trigger\<close>, the stream does exactly what \<open>triggerErr\<close> does with the
  exception, so the value listeners receive no update for that input.
\<close>

theorem errors_reach_error_listeners_only:
  "(key_of l \<notin> key_of ` set (errListeners s) \<longrightarrow>
      filter (\<lambda>e. fst e = key_of l) (delivered (triggerErr s err fl))
        = filter (\<lambda>e. fst e = key_of l) (delivered fl))
   \<and> set (delivered (triggerErr s err fl))
        \<subseteq> set (delivered fl) \<union> (\<lambda>l. (key_of l, err)) ` set (errListeners s)
   \<and> (l \<in> set (errListeners s) \<longrightarrow> (key_of l, err) \<in> set (delivered (triggerErr s err fl)))
   \<and> (transform s event = Inl e \<longrightarrow>
        go s event True fl = triggerErr s e fl \<and> trigger s event None fl = triggerErr s e fl)"
proof (intro conjI impI)
  assume "key_of l \<notin> key_of ` set (errListeners s)"
  then show "filter (\<lambda>e. fst e = key_of l) (delivered (triggerErr s err fl))
               = filter (\<lambda>e. fst e = key_of l) (delivered fl)"
    by (simp add: triggerErr_def delivered_stream_update defer_all_other) (simp add: delivered_def)
next
  show "set (delivered (triggerErr s err fl))
          \<subseteq> set (delivered fl) \<union> (\<lambda>l. (key_of l, err)) ` set (errListeners s)"
    using defer_all_set [of err "errListeners s" "queue fl"]
    by (auto simp add: triggerErr_def delivered_stream_update) (auto simp add: delivered_def)
next
  assume "l \<in> set (errListeners s)"
  then show "(key_of l, err) \<in> set (delivered (triggerErr s err fl))"
    by (simp add: triggerErr_def delivered_stream_update defer_all_mem)
next
  assume "transform s event = Inl e"
  then show "go s event True fl = triggerErr s e fl" by (simp add: go_def)
next
  assume "transform s event = Inl e"
  then show "trigger s event None fl = triggerErr s e fl" by (simp add: trigger_def go_def)
qed

theorem errors_reach_error_listeners_only_witness:
  "key_of fun_listener \<notin> key_of ` set (errListeners failing_stream)
   \<and> obj_listener \<in> set (errListeners failing_stream)
   \<and> transform failing_stream (Num 1) = Inl (Str ''boom'')
   \<and> filter (\<lambda>e. fst e = key_of fun_listener) (delivered (trigger failing_stream (Num 1) None idle_flow)) = []
   \<and> delivered (trigger failing_stream (Num 1) None idle_flow) = [(key_of obj_listener, Str ''boom'')]"
  using errors_reach_error_listeners_only [of fun_listener failing_stream "Str ''boom''" idle_flow "Num 1" "Str ''boom''"]
        errors_reach_error_listeners_only [of obj_listener failing_stream "Str ''boom''" idle_flow "Num 1" "Str ''boom''"]
  by (simp add: failing_stream_def idle_flow_def transform_def key_of_def fun_listener_def obj_listener_def
        delivered_def triggerErr_def stream_update_def run_def flush_def stream_defer_def flow_push_def)

section \<open>The edit script of a diff\<close>

lemma src_of_map_Ins: "src_of (map Ins ys) = []" and dst_of_map_Ins: "dst_of (map Ins ys) = ys"
  by (induction ys) simp_all

lemma src_of_map_Del: "src_of (map Del xs) = xs" and dst_of_map_Del: "dst_of (map Del xs) = []"
  by (induction xs) simp_all

lemma cost_map_Ins: "cost (map Ins ys) = length ys"
  by (induction ys) simp_all

lemma cost_map_Del: "cost (map Del xs) = length xs"
  by (induction xs) simp_all

lemma align_script: "src_of (align xs ys) = xs \<and> dst_of (align xs ys) = ys"
proof (induction xs ys rule: align.induct)
  case (1 ys)
  then show ?case by (simp add: src_of_map_Ins dst_of_map_Ins)
next
  case (2 x xs)
  then show ?case using src_of_map_Del [of "x # xs"] dst_of_map_Del [of "x # xs"] by simp
next
  case (3 x xs y ys)
  then show ?case by (simp add: Let_def)
qed

lemma cost_no_source: "src_of s = [] \<Longrightarrow> cost s = length (dst_of s)"
proof (induction s)
  case Nil
  then show ?case by simp
next
  case (Cons e s)
  then show ?case by (cases e) simp_all
qed

lemma cost_no_target: "dst_of s = [] \<Longrightarrow> cost s = length (src_of s)"
proof (induction s)
  case Nil
  then show ?case by simp
next
  case (Cons e s)
  then show ?case by (cases e) simp_all
qed

lemma drop_target_head:
  "dst_of s = y # ys \<Longrightarrow> \<exists>t. src_of t = src_of s \<and> dst_of t = ys \<and> cost t \<le> Suc (cost s)"
proof (induction s)
  case Nil
  then show ?case by simp
next
  case (Cons e s)
  show ?case
  proof (cases e)
    case (Keep z)
    with Cons.prems have "src_of (Del z # s) = src_of (e # s) \<and> dst_of (Del z # s) = ys
                          \<and> cost (Del z # s) \<le> Suc (cost (e # s))" by simp
    then show ?thesis by blast
  next
    case (Del z)
    with Cons.prems have "dst_of s = y # ys" by simp
    then obtain t where "src_of t = src_of s \<and> dst_of t = ys \<and> cost t \<le> Suc (cost s)"
      using Cons.IH by blast
    with Del have "src_of (Del z # t) = src_of (e # s) \<and> dst_of (Del z # t) = ys
                          \<and> cost (Del z # t) \<le> Suc (cost (e # s))" by simp
    then show ?thesis by blast
  next
    case (Ins z)
    with Cons.prems have "src_of s = src_of (e # s) \<and> dst_of s = ys \<and> cost s \<le> Suc (cost (e # s))"
      by simp
    then show ?thesis by blast
  qed
qed

lemma drop_source_head:
  "src_of s = x # xs \<Longrightarrow> \<exists>t. src_of t = xs \<and> dst_of t = dst_of s \<and> cost t \<le> Suc (cost s)"
proof (induction s)
  case Nil
  then show ?case by simp
next
  case (Cons e s)
  show ?case
  proof (cases e)
    case (Keep z)
    with Cons.prems have "src_of (Ins z # s) = xs \<and> dst_of (Ins z # s) = dst_of (e # s)
                          \<and> cost (Ins z # s) \<le> Suc (cost (e # s))" by simp
    then show ?thesis by blast
  next
    case (Del z)
    with Cons.prems have "src_of s = xs \<and> dst_of s = dst_of (e # s) \<and> cost s \<le> Suc (cost (e # s))"
      by simp
    then show ?thesis by blast
  next
    case (Ins z)
    with Cons.prems have "src_of s = x # xs" by simp
    then obtain t where "src_of t = xs \<and> dst_of t = dst_of s \<and> cost t \<le> Suc (cost s)"
      using Cons.IH by blast
    with Ins have "src_of (Ins z # t) = xs \<and> dst_of (Ins z # t) = dst_of (e # s)
                          \<and> cost (Ins z # t) \<le> Suc (cost (e # s))" by simp
    then show ?thesis by blast
  qed
qed

lemma align_minimal:
  "src_of s = xs \<Longrightarrow> dst_of s = ys \<Longrightarrow> cost (align xs ys) \<le> cost s"
proof (induction xs ys arbitrary: s rule: align.induct)
  case (1 ys)
  then show ?case by (simp add: cost_map_Ins cost_no_source)
next
  case (2 x xs)
  then show ?case using cost_map_Del [of "x # xs"] cost_no_target [of s] by simp
next
  case (3 x xs y ys)
  from "3.prems" obtain e r where s: "s = e # r" by (cases s) auto
  show ?case
  proof (cases "x = y")
    case True
    have goal: "cost (align (x # xs) (y # ys)) = cost (align xs ys)" using True by simp
    show ?thesis
    proof (cases e)
      case (Keep z)
      with s "3.prems" have "src_of r = xs" "dst_of r = ys" by simp_all
      then have "cost (align xs ys) \<le> cost r" using "3.IH"(1) [OF True] by blast
      then show ?thesis using goal s Keep by simp
    next
      case (Del z)
      with s "3.prems" have r: "src_of r = xs" "dst_of r = y # ys" by simp_all
      then obtain t where "src_of t = xs \<and> dst_of t = ys \<and> cost t \<le> Suc (cost r)"
        using drop_target_head [of r y ys] by auto
      then have "cost (align xs ys) \<le> Suc (cost r)"
        using "3.IH"(1) [OF True, of t] by auto
      then show ?thesis using goal s Del by simp
    next
      case (Ins z)
      with s "3.prems" have r: "src_of r = x # xs" "dst_of r = ys" by simp_all
      then obtain t where "src_of t = xs \<and> dst_of t = ys \<and> cost t \<le> Suc (cost r)"
        using drop_source_head [of r x xs] by auto
      then have "cost (align xs ys) \<le> Suc (cost r)"
        using "3.IH"(1) [OF True, of t] by auto
      then show ?thesis using goal s Ins by simp
    qed
  next
    case False
    have goal: "cost (align (x # xs) (y # ys))
                  = Suc (min (cost (align xs (y # ys))) (cost (align (x # xs) ys)))"
      using False by (simp add: Let_def min_def)
    show ?thesis
    proof (cases e)
      case (Keep z)
      with s "3.prems" False show ?thesis by simp
    next
      case (Del z)
      with s "3.prems" have "src_of r = xs" "dst_of r = y # ys" by simp_all
      then have "cost (align xs (y # ys)) \<le> cost r" using "3.IH"(2) [OF False] by blast
      then show ?thesis using goal s Del by simp
    next
      case (Ins z)
      with s "3.prems" have "src_of r = x # xs" "dst_of r = ys" by simp_all
      then have "cost (align (x # xs) ys) \<le> cost r" using "3.IH"(3) [OF False refl] by blast
      then show ?thesis using goal s Ins by simp
    qed
  qed
qed

lemma regions_changed:
  "list_all changed (close_region cur) \<Longrightarrow> list_all changed (regions i cur es)"
proof (induction es arbitrary: i cur)
  case Nil
  then show ?case by simp
next
  case (Cons e es)
  show ?case
  proof (cases e)
    case (Keep x)
    then show ?thesis using Cons.prems Cons.IH [of None] by simp
  next
    case (Del x)
    then show ?thesis using Cons.IH by (cases cur) (auto split: prod.splits)
  next
    case (Ins y)
    then show ?thesis using Cons.IH by (cases cur) (auto split: prod.splits)
  qed
qed

lemma updateByDiff_loop_log:
  "list_all changed rs \<Longrightarrow>
   log (updateByDiff_loop pu (map (\<lambda>(j, o1, n1). (j, Some (o1, n1))) rs) w) = log w @ map region_update rs"
proof (induction rs arbitrary: w)
  case Nil
  then show ?case by simp
next
  case (Cons r rs)
  obtain j o1 n1 where r: "r = (j, o1, n1)" by (cases r) auto
  with Cons.prems have c: "o1 \<noteq> [] \<or> n1 \<noteq> []" and rest: "list_all changed rs" by simp_all
  have "log (updateSplice pu (Key (decimal (nat j))) (Some o1) (Some n1) w) = log w @ [region_update r]"
    using c r by (auto simp add: updateSplice_frame region_update_def)
  then show ?case using Cons.IH [OF rest] r by simp
qed

lemma updateByDiff_loop_array:
  "array (updateByDiff_loop pu (map (\<lambda>(j, o1, n1). (j, Some (o1, n1))) rs) w) = array w"
  by (induction rs arbitrary: w) (auto simp add: updateSplice_frame)

lemma updateByDiff_log:
  "log (updateByDiff pu old w) = log w @ map region_update (regions 0 None (align old (array w)))"
  unfolding updateByDiff_def diff_def
  by (rule updateByDiff_loop_log) (rule regions_changed, simp)

text \<open>
  What the flow receives: \<open>willUpdateSplice\<close> enqueues, with push-once, the invocations
  of the listeners it selects, and leaves the listeners of the sequence as they are.
\<close>

lemma willUpdateSplice_flow:
  assumes "s \<noteq> [] \<or> n \<noteq> []"
  shows "flow (willUpdateSplice pu ix (Some s) (Some n) w)
     = (flow w)\<lparr>queue := pushOnceAll
          (concat (map (notify pu (Event None (code op_splice) ix (PElems s) (PElems n))) (splice_listeners w s n)))
          (queue (flow w))\<rparr>"
proof -
  have ne: "\<not> (length s = 0 \<and> length n = 0)" using assms by simp
  have "willUpdateSplice pu ix (Some s) (Some n) w
          = willUpdateListeners pu (splice_listeners w s n) (code op_splice) ix (PElems s) (PElems n) w"
    unfolding willUpdateSplice_def splice_listeners_def by (simp only: option.case ne if_False Let_def)
  then show ?thesis
    by (simp add: willUpdateListeners_def Let_def willUpdateListeners_loop_requests)
qed

lemma willUpdateListeners_same_listeners:
  "indexListeners (willUpdateListeners pu ls op ind ov nv w) = indexListeners w"
  "lengthListeners (willUpdateListeners pu ls op ind ov nv w) = lengthListeners w"
  by (simp_all add: willUpdateListeners_def Let_def)

lemma willUpdateSplice_same_listeners:
  "indexListeners (willUpdateSplice pu ix so sn w) = indexListeners w"
  "lengthListeners (willUpdateSplice pu ix so sn w) = lengthListeners w"
  unfolding willUpdateSplice_def Let_def
  by (simp_all only: willUpdateListeners_same_listeners if_distrib [of indexListeners] if_distrib [of lengthListeners] option.case_distrib [of indexListeners] option.case_distrib [of lengthListeners] if_cancel option.case_eq_if)

lemma flow_run_same_listeners:
  assumes "\<And>v. indexListeners (body v) = indexListeners v"
      and "\<And>v. lengthListeners (body v) = lengthListeners v"
  shows "indexListeners (flow_run body w) = indexListeners w"
    and "lengthListeners (flow_run body w) = lengthListeners w"
  using assms by (simp_all add: flow_run_def Let_def)

lemma updateSplice_same_listeners:
  "indexListeners (updateSplice pu ix so sn w) = indexListeners w"
  "lengthListeners (updateSplice pu ix so sn w) = lengthListeners w"
proof -
  let ?body = "willUpdateSplice pu ix so sn"
  have i: "\<And>v. indexListeners (?body v) = indexListeners v"
    and l: "\<And>v. lengthListeners (?body v) = lengthListeners v"
    by (rule willUpdateSplice_same_listeners)+
  show "indexListeners (updateSplice pu ix so sn w) = indexListeners w"
    unfolding updateSplice_def
    by (cases "running (flow w)") (simp_all only: if_True if_False i flow_run_same_listeners(1) [of ?body, OF i l])
  show "lengthListeners (updateSplice pu ix so sn w) = lengthListeners w"
    unfolding updateSplice_def
    by (cases "running (flow w)") (simp_all only: if_True if_False l flow_run_same_listeners(2) [of ?body, OF i l])
qed

lemma splice_listeners_cong:
  "indexListeners v = indexListeners w \<Longrightarrow> lengthListeners v = lengthListeners w \<Longrightarrow>
   splice_listeners v s n = splice_listeners w s n"
  by (simp only: splice_listeners_def)

lemma region_requests_cong:
  "indexListeners v = indexListeners w \<Longrightarrow> lengthListeners v = lengthListeners w \<Longrightarrow>
   region_requests pu v r = region_requests pu w r"
proof -
  assume a: "indexListeners v = indexListeners w" "lengthListeners v = lengthListeners w"
  have "splice_listeners v (fst (snd r)) (snd (snd r)) = splice_listeners w (fst (snd r)) (snd (snd r))"
    using a by (rule splice_listeners_cong)
  then show ?thesis by (simp only: region_requests_def)
qed

lemma updateSplice_flow_running:
  assumes "running (flow w)" and "o1 \<noteq> [] \<or> n1 \<noteq> []"
  shows "flow (updateSplice pu (Key (decimal (nat j))) (Some o1) (Some n1) w)
           = (flow w)\<lparr>queue := pushOnceAll (region_requests pu w (j, o1, n1)) (queue (flow w))\<rparr>"
proof -
  have "updateSplice pu (Key (decimal (nat j))) (Some o1) (Some n1) w
          = willUpdateSplice pu (Key (decimal (nat j))) (Some o1) (Some n1) w"
    unfolding updateSplice_def using assms(1) by (simp only: if_True)
  then show ?thesis
    by (simp only: willUpdateSplice_flow [OF assms(2)] region_requests_def region_event.simps fst_conv snd_conv)
qed

lemma flow_idle_eq:
  "\<not> running fl \<Longrightarrow> fl\<lparr>running := True, queue := [], executed := ex, running := False\<rparr> = fl\<lparr>queue := [], executed := ex\<rparr>"
  by (cases fl) simp

lemma updateSplice_flow_idle:
  assumes "\<not> running (flow w)" and "o1 \<noteq> [] \<or> n1 \<noteq> []"
  shows "flow (updateSplice pu (Key (decimal (nat j))) (Some o1) (Some n1) w)
           = (flow w)\<lparr>queue := [],
                      executed := executed (flow w)
                                  @ pushOnceAll (region_requests pu w (j, o1, n1)) (queue (flow w))\<rparr>"
proof -
  let ?v = "w\<lparr>flow := (flow w)\<lparr>running := True\<rparr>\<rparr>"
  let ?ix = "Key (decimal (nat j))"
  let ?ev = "Event None (code op_splice) ?ix (PElems o1) (PElems n1)"
  let ?rq = "concat (map (notify pu ?ev) (splice_listeners w o1 n1))"
  have sl: "splice_listeners ?v o1 n1 = splice_listeners w o1 n1"
    by (rule splice_listeners_cong) simp_all
  have fv: "flow ?v = (flow w)\<lparr>running := True\<rparr>" by simp
  have body: "flow (willUpdateSplice pu ?ix (Some o1) (Some n1) ?v)
                = (flow w)\<lparr>running := True, queue := pushOnceAll ?rq (queue (flow w))\<rparr>"
    unfolding willUpdateSplice_flow [OF assms(2)] sl fv by simp
  have us: "updateSplice pu ?ix (Some o1) (Some n1) w
              = (willUpdateSplice pu ?ix (Some o1) (Some n1) ?v)
                  \<lparr>flow := (flush (flow (willUpdateSplice pu ?ix (Some o1) (Some n1) ?v)))\<lparr>running := False\<rparr>\<rparr>"
    unfolding updateSplice_def flow_run_def Let_def using assms(1) by (simp only: if_False)
  have "flow (updateSplice pu ?ix (Some o1) (Some n1) w)
          = (flush (flow (willUpdateSplice pu ?ix (Some o1) (Some n1) ?v)))\<lparr>running := False\<rparr>"
    unfolding us by simp
  also have "\<dots> = (flow w)\<lparr>running := True, queue := [],
                     executed := executed (flow w) @ pushOnceAll ?rq (queue (flow w)), running := False\<rparr>"
    unfolding body by (simp add: flush_def)
  also have "\<dots> = (flow w)\<lparr>queue := [], executed := executed (flow w) @ pushOnceAll ?rq (queue (flow w))\<rparr>"
    using assms(1) by (rule flow_idle_eq)
  finally show ?thesis by (simp only: region_requests_def region_event.simps fst_conv snd_conv)
qed

lemma updateByDiff_loop_flow_running:
  "list_all changed rs \<Longrightarrow> running (flow w) \<Longrightarrow>
   flow (updateByDiff_loop pu (map (\<lambda>(j, o1, n1). (j, Some (o1, n1))) rs) w)
     = (flow w)\<lparr>queue := pushOnceAll (concat (map (region_requests pu w) rs)) (queue (flow w))\<rparr>"
proof (induction rs arbitrary: w)
  case Nil
  then show ?case by simp
next
  case (Cons r rs)
  let ?f = "\<lambda>(j, o1, n1). (j, Some (o1, n1))"
  obtain j o1 n1 where r: "r = (j, o1, n1)" by (cases r) auto
  with Cons.prems have c: "o1 \<noteq> [] \<or> n1 \<noteq> []" and rest: "list_all changed rs" by simp_all
  let ?v = "updateSplice pu (Key (decimal (nat j))) (Some o1) (Some n1) w"
  have fv: "flow ?v = (flow w)\<lparr>queue := pushOnceAll (region_requests pu w r) (queue (flow w))\<rparr>"
    using updateSplice_flow_running [OF Cons.prems(2) c] r by simp
  then have rv: "running (flow ?v)" using Cons.prems(2) by simp
  have rq: "region_requests pu ?v = region_requests pu w"
    by (rule ext, rule region_requests_cong) (rule updateSplice_same_listeners)+
  have step: "updateByDiff_loop pu (map ?f (r # rs)) w = updateByDiff_loop pu (map ?f rs) ?v"
    using r by simp
  have "flow (updateByDiff_loop pu (map ?f rs) ?v)
          = (flow ?v)\<lparr>queue := pushOnceAll (concat (map (region_requests pu ?v) rs)) (queue (flow ?v))\<rparr>"
    using Cons.IH [OF rest rv] .
  then show ?case unfolding step rq fv by (simp add: pushOnceAll_append)
qed

lemma updateByDiff_loop_flow_idle:
  "list_all changed rs \<Longrightarrow> \<not> running (flow w) \<Longrightarrow> queue (flow w) = [] \<Longrightarrow>
   flow (updateByDiff_loop pu (map (\<lambda>(j, o1, n1). (j, Some (o1, n1))) rs) w)
     = (flow w)\<lparr>executed := executed (flow w)
                               @ concat (map (\<lambda>r. pushOnceAll (region_requests pu w r) []) rs)\<rparr>"
proof (induction rs arbitrary: w)
  case Nil
  then show ?case by simp
next
  case (Cons r rs)
  let ?f = "\<lambda>(j, o1, n1). (j, Some (o1, n1))"
  obtain j o1 n1 where r: "r = (j, o1, n1)" by (cases r) auto
  with Cons.prems have c: "o1 \<noteq> [] \<or> n1 \<noteq> []" and rest: "list_all changed rs" by simp_all
  let ?v = "updateSplice pu (Key (decimal (nat j))) (Some o1) (Some n1) w"
  have fv: "flow ?v = (flow w)\<lparr>queue := [],
              executed := executed (flow w) @ pushOnceAll (region_requests pu w r) []\<rparr>"
    using updateSplice_flow_idle [OF Cons.prems(2) c] r Cons.prems(3) by simp
  then have rv: "\<not> running (flow ?v)" and qv: "queue (flow ?v) = []" using Cons.prems(2) by simp_all
  have rq: "region_requests pu ?v = region_requests pu w"
    by (rule ext, rule region_requests_cong) (rule updateSplice_same_listeners)+
  have step: "updateByDiff_loop pu (map ?f (r # rs)) w = updateByDiff_loop pu (map ?f rs) ?v"
    using r by simp
  have q: "(flow w)\<lparr>queue := []\<rparr> = flow w" using Cons.prems(3) by (cases "flow w") simp
  have "flow (updateByDiff_loop pu (map ?f rs) ?v)
          = (flow ?v)\<lparr>executed := executed (flow ?v)
                               @ concat (map (\<lambda>r. pushOnceAll (region_requests pu ?v r) []) rs)\<rparr>"
    using Cons.IH [OF rest rv qv] .
  then have X: "flow (updateByDiff_loop pu (map ?f rs) ?v)
          = (flow w)\<lparr>executed := executed (flow w)
               @ concat (map (\<lambda>r. pushOnceAll (region_requests pu w r) []) (r # rs))\<rparr>"
    unfolding rq fv using q by simp
  show ?case unfolding step using X .
qed

lemma regions_of_diff_changed: "list_all changed (regions 0 None (align old new))"
  by (rule regions_changed) simp

lemma updateByDiff_flow_running:
  "running (flow w) \<Longrightarrow>
   flow (updateByDiff pu old w)
     = (flow w)\<lparr>queue := pushOnceAll
          (concat (map (region_requests pu w) (regions 0 None (align old (array w))))) (queue (flow w))\<rparr>"
  unfolding updateByDiff_def diff_def
  by (rule updateByDiff_loop_flow_running [OF regions_of_diff_changed])

lemma updateByDiff_flow_idle:
  "\<not> running (flow w) \<Longrightarrow> queue (flow w) = [] \<Longrightarrow>
   flow (updateByDiff pu old w)
     = (flow w)\<lparr>executed := executed (flow w)
          @ concat (map (\<lambda>r. pushOnceAll (region_requests pu w r) []) (regions 0 None (align old (array w))))\<rparr>"
  unfolding updateByDiff_def diff_def
  by (rule updateByDiff_loop_flow_idle [OF regions_of_diff_changed])

lemma native_splice_middle:
  "native_splice (pre @ o1 @ rest) (int (length pre)) (Some (int (length o1))) n1 = (o1, pre @ n1 @ rest)"
  by (simp add: native_splice_def Let_def)

lemma apply_regions_append: "apply_regions (rs @ ts) a = apply_regions ts (apply_regions rs a)"
  by (induction rs arbitrary: a) simp_all

lemma regions_replay:
  "(cur = None \<longrightarrow> i = int (length pre) \<longrightarrow>
      apply_regions (regions i cur es) (pre @ src_of es) = pre @ dst_of es)
   \<and> (\<forall>o1 n1. cur = Some (int (length pre), o1, n1) \<longrightarrow> i = int (length pre) + int (length n1) \<longrightarrow>
      apply_regions (regions i cur es) (pre @ o1 @ src_of es) = pre @ n1 @ dst_of es)"
proof (induction es arbitrary: i cur pre)
  case Nil
  show ?case using native_splice_middle [of pre _ "[]"] by simp
next
  case (Cons e es)
  show ?case
  proof (cases e)
    case (Keep x)
    have a: "i = int (length pre) \<Longrightarrow>
             apply_regions (regions (i + 1) None es) (pre @ x # src_of es) = pre @ x # dst_of es"
      using Cons.IH [of None "i + 1" "pre @ [x]"] by simp
    have b: "\<And>o1 n1. i = int (length pre) + int (length n1) \<Longrightarrow>
             apply_regions (regions (i + 1) None es) (pre @ n1 @ x # src_of es) = pre @ n1 @ x # dst_of es"
      using Cons.IH [of None "i + 1" "pre @ _ @ [x]"] by simp
    show ?thesis using Keep a b native_splice_middle [of pre _ "x # src_of es"] by simp
  next
    case (Del x)
    have a: "i = int (length pre) \<Longrightarrow>
             apply_regions (regions i (Some (i, [x], [])) es) (pre @ x # src_of es) = pre @ dst_of es"
      using Cons.IH [of "Some (i, [x], [])" i pre] by simp
    have b: "\<And>o1 n1. i = int (length pre) + int (length n1) \<Longrightarrow>
             apply_regions (regions i (Some (int (length pre), o1 @ [x], n1)) es) (pre @ o1 @ x # src_of es)
               = pre @ n1 @ dst_of es"
      using Cons.IH [of "Some (int (length pre), _ @ [x], _)" i pre] by simp
    show ?thesis using Del a b by simp
  next
    case (Ins y)
    have a: "i = int (length pre) \<Longrightarrow>
             apply_regions (regions (i + 1) (Some (i, [], [y])) es) (pre @ src_of es) = pre @ y # dst_of es"
      using Cons.IH [of "Some (i, [], [y])" "i + 1" pre] by simp
    have b: "\<And>o1 n1. i = int (length pre) + int (length n1) \<Longrightarrow>
             apply_regions (regions (i + 1) (Some (int (length pre), o1, n1 @ [y])) es) (pre @ o1 @ src_of es)
               = pre @ n1 @ y # dst_of es"
      using Cons.IH [of "Some (int (length pre), _, _ @ [y])" "i + 1" pre] by simp
    show ?thesis using Ins a b by simp
  qed
qed

lemma diff_replay: "apply_regions (regions 0 None (align old new)) old = new"
  using regions_replay [of None 0 "[]" "align old new"] by (simp add: align_script)

lemma decimal_digit: "n < 10 \<Longrightarrow> decimal n = [''0123456789'' ! n]"
  by (subst decimal.simps) (simp only: if_True)

lemma decimal_1: "decimal (Suc 0) = ''1''" "decimal (nat 1) = ''1''"
  by (simp_all add: decimal_digit)

lemma regions_1994:
  "regions 0 None (align [1, 2, 3, 4::int] [1, 9, 9, 4]) = [(1, [2, 3], [9, 9])]"
  by (simp add: Let_def)

lemma requests_1994:
  "region_requests pu w (1, [2, 3::int], [9, 9])
     = concat (map (notify pu (Event None (code op_splice) (Key ''1'') (PElems [2, 3]) (PElems [9, 9])))
                (indexListeners w))"
  by (simp add: region_requests_def splice_listeners_def decimal_1)

text \<open>
  C6. \<open>updateByDiff\<close> hands the flow exactly one splice update for each contiguous
  changed region of the edit script between the old snapshot and the backing array, in
  order, and leaves the backing array as it is.  Inside an open run the invocations of
  the listeners of every region are enqueued, with push-once, behind the pending ones;
  with no run open and nothing pending, every region is delivered in a run of its own and
  the invocations of its listeners are executed.  The script turns the old snapshot into
  the backing array with the fewest deletions and insertions among all edit scripts, and
  replaying the regions as splices on the old snapshot gives the backing array.  For the
  old snapshot \<open>[1, 2, 3, 4]\<close> and the backing array \<open>[1, 9, 9, 4]\<close> the only update is
  the splice that removes \<open>[2, 3]\<close> and inserts \<open>[9, 9]\<close>, its index is the key \<open>"1"\<close> of
  the table of the diff, and the index listeners are the ones that receive it.
\<close>

theorem updateByDiff_splices:
  "log (updateByDiff pu old w) = log w @ map region_update (regions 0 None (align old (array w)))
   \<and> array (updateByDiff pu old w) = array w
   \<and> (running (flow w) \<longrightarrow>
        flow (updateByDiff pu old w)
          = (flow w)\<lparr>queue := pushOnceAll
               (concat (map (region_requests pu w) (regions 0 None (align old (array w)))))
               (queue (flow w))\<rparr>)
   \<and> (\<not> running (flow w) \<longrightarrow> queue (flow w) = [] \<longrightarrow>
        flow (updateByDiff pu old w)
          = (flow w)\<lparr>executed := executed (flow w)
               @ concat (map (\<lambda>r. pushOnceAll (region_requests pu w r) [])
                             (regions 0 None (align old (array w))))\<rparr>)
   \<and> src_of (align old (array w)) = old \<and> dst_of (align old (array w)) = array w
   \<and> (src_of s = old \<and> dst_of s = array w \<longrightarrow> cost (align old (array w)) \<le> cost s)
   \<and> apply_regions (regions 0 None (align old (array w))) old = array w
   \<and> (array w1 = [1, 9, 9, 4::int] \<longrightarrow>
        log (updateByDiff pu1 [1, 2, 3, 4] w1)
          = log w1 @ [Update (Event None (code op_splice) (Key ''1'') (PElems [2, 3]) (PElems [9, 9]))]
        \<and> (running (flow w1) \<longrightarrow>
             flow (updateByDiff pu1 [1, 2, 3, 4] w1)
               = (flow w1)\<lparr>queue := pushOnceAll
                    (concat (map (notify pu1 (Event None (code op_splice) (Key ''1'') (PElems [2, 3]) (PElems [9, 9])))
                                 (indexListeners w1)))
                    (queue (flow w1))\<rparr>)
        \<and> (\<not> running (flow w1) \<longrightarrow> queue (flow w1) = [] \<longrightarrow>
             flow (updateByDiff pu1 [1, 2, 3, 4] w1)
               = (flow w1)\<lparr>executed := executed (flow w1) @ pushOnceAll
                    (concat (map (notify pu1 (Event None (code op_splice) (Key ''1'') (PElems [2, 3]) (PElems [9, 9])))
                                 (indexListeners w1))) []\<rparr>))"
proof (intro conjI impI)
  show "log (updateByDiff pu old w) = log w @ map region_update (regions 0 None (align old (array w)))"
    by (rule updateByDiff_log)
  show "array (updateByDiff pu old w) = array w"
    by (simp add: updateByDiff_def diff_def updateByDiff_loop_array)
  show "src_of (align old (array w)) = old" "dst_of (align old (array w)) = array w"
    by (simp_all add: align_script)
  show "apply_regions (regions 0 None (align old (array w))) old = array w"
    by (rule diff_replay)
next
  assume "running (flow w)"
  then show "flow (updateByDiff pu old w)
          = (flow w)\<lparr>queue := pushOnceAll
               (concat (map (region_requests pu w) (regions 0 None (align old (array w)))))
               (queue (flow w))\<rparr>"
    by (rule updateByDiff_flow_running)
next
  assume "\<not> running (flow w)" and "queue (flow w) = []"
  then show "flow (updateByDiff pu old w)
          = (flow w)\<lparr>executed := executed (flow w)
               @ concat (map (\<lambda>r. pushOnceAll (region_requests pu w r) [])
                             (regions 0 None (align old (array w))))\<rparr>"
    by (rule updateByDiff_flow_idle)
next
  assume "src_of s = old \<and> dst_of s = array w"
  then show "cost (align old (array w)) \<le> cost s" using align_minimal [of s] by blast
next
  assume a: "array w1 = [1, 9, 9, 4::int]"
  show "log (updateByDiff pu1 [1, 2, 3, 4] w1)
          = log w1 @ [Update (Event None (code op_splice) (Key ''1'') (PElems [2, 3]) (PElems [9, 9]))]"
    unfolding updateByDiff_log a regions_1994 by (simp add: region_update_def decimal_1)
next
  assume a: "array w1 = [1, 9, 9, 4::int]" and r: "running (flow w1)"
  show "flow (updateByDiff pu1 [1, 2, 3, 4] w1)
               = (flow w1)\<lparr>queue := pushOnceAll
                    (concat (map (notify pu1 (Event None (code op_splice) (Key ''1'') (PElems [2, 3]) (PElems [9, 9])))
                                 (indexListeners w1)))
                    (queue (flow w1))\<rparr>"
    unfolding updateByDiff_flow_running [OF r] a regions_1994 by (simp only: list.map concat.simps append_Nil2 requests_1994)
next
  assume a: "array w1 = [1, 9, 9, 4::int]" and r: "\<not> running (flow w1)" and q: "queue (flow w1) = []"
  show "flow (updateByDiff pu1 [1, 2, 3, 4] w1)
               = (flow w1)\<lparr>executed := executed (flow w1) @ pushOnceAll
                    (concat (map (notify pu1 (Event None (code op_splice) (Key ''1'') (PElems [2, 3]) (PElems [9, 9])))
                                 (indexListeners w1))) []\<rparr>"
    unfolding updateByDiff_flow_idle [OF r q] a regions_1994 by (simp only: list.map concat.simps append_Nil2 requests_1994)
qed

theorem updateByDiff_splices_witness:
  "array seq1994 = [1, 9, 9, 4]
   \<and> src_of [Keep 1, Del 2, Ins 9, Del 3, Ins 9, Keep 4] = [1, 2, 3, 4]
   \<and> dst_of [Keep 1, Del 2, Ins 9, Del 3, Ins 9, Keep 4] = array seq1994
   \<and> cost (align [1, 2, 3, 4] (array seq1994)) \<le> 4
   \<and> log (updateByDiff no_update [1, 2, 3, 4] seq1994)
      = [Update (Event None 6 (Key ''1'') (PElems [2, 3]) (PElems [9, 9]))]
   \<and> \<not> running (flow seq1994) \<and> queue (flow seq1994) = []
   \<and> flow (updateByDiff no_update [1, 2, 3, 4] seq1994)
      = \<lparr>running = False, queue = [],
         executed = [((None, 1), Event None 6 (Key ''1'') (PElems [2, 3]) (PElems [9, 9]))]\<rparr>
   \<and> running (flow (seq1994\<lparr>flow := \<lparr>running = True, queue = [], executed = []\<rparr>\<rparr>))
   \<and> flow (updateByDiff no_update [1, 2, 3, 4] (seq1994\<lparr>flow := \<lparr>running = True, queue = [], executed = []\<rparr>\<rparr>))
      = \<lparr>running = True,
         queue = [((None, 1), Event None 6 (Key ''1'') (PElems [2, 3]) (PElems [9, 9]))],
         executed = []\<rparr>"
  using updateByDiff_splices [of no_update "[1, 2, 3, 4]" seq1994
          "[Keep 1, Del 2, Ins 9, Del 3, Ins 9, Keep 4]" seq1994 no_update]
        updateByDiff_splices [of no_update "[1, 2, 3, 4]" "seq1994\<lparr>flow := \<lparr>running = True, queue = [], executed = []\<rparr>\<rparr>"
          "[Keep 1, Del 2, Ins 9, Del 3, Ins 9, Keep 4]"
          "seq1994\<lparr>flow := \<lparr>running = True, queue = [], executed = []\<rparr>\<rparr>" no_update]
  by (simp add: seq1994_def notify_def key_of_def fun_listener_def region_update_def requests_1994 decimal_1)

end
